theory Spec2Isabelle
  imports Main "HOL-Library.Word"
begin

unbundle bit_operations_syntax

section \<open>Deterministic EC key generation from a brainkey (src/brainkey.cc)\<close>

text \<open>
  The file \<^verbatim>\<open>brainkey.cc\<close> replaces libcrypto's random source by a keystream
  derived from a passphrase and re-implements libcrypto's integer sampling on top of it.
  The embedding keeps the four functions of the file and their names:
  \<^verbatim>\<open>bk_RAND_bytes\<close>, \<^verbatim>\<open>bk_bnrand\<close>, \<^verbatim>\<open>bk_bnrand_range\<close> and
  \<^verbatim>\<open>EC_KEY_generate_key\<close>.

  \<^item> The static counter \<^verbatim>\<open>salt_cnt\<close> is an \<^verbatim>\<open>unsigned int\<close>: a \<open>32 word\<close>
    passed in and returned by every function, also when the function fails.
  \<^item> \<^verbatim>\<open>config::brainkey1\<close> is a \<^verbatim>\<open>std::string\<close>: a \<open>string\<close> parameter \<open>bk\<close>.
  \<^item> A \<^verbatim>\<open>BIGNUM\<close> is an \<open>int\<close>; a byte buffer is a list of \<open>8 word\<close>.
  \<^item> Every \<^verbatim>\<open>return 0\<close> is a result \<open>Inl e\<close>. The source returns the same \<open>0\<close>
    everywhere; the constructor of \<open>e\<close> only names the place that returned.
  \<^item> libcrypto is not part of the file. Its key derivation, the group order, the point
    multiplication, the setters of the key object and its own key generator are
    parameters of the functions that call them. \<^verbatim>\<open>BN_num_bits\<close>, \<^verbatim>\<open>BN_is_bit_set\<close>,
    \<^verbatim>\<open>BN_bin2bn\<close>, \<^verbatim>\<open>BN_cmp\<close> and \<^verbatim>\<open>BN_sub\<close> are their arithmetic meaning on \<open>int\<close>.
  \<^item> Memory exhaustion is not modelled: \<^verbatim>\<open>new (nothrow)\<close>, \<^verbatim>\<open>BN_new\<close>,
    \<^verbatim>\<open>BN_CTX_new\<close>, \<^verbatim>\<open>EC_POINT_new\<close>, \<^verbatim>\<open>BN_bin2bn\<close> and \<^verbatim>\<open>BN_sub\<close> succeed.
  \<^item> Behaviour that C++ leaves undefined is a result \<open>Inl\<close> of its own
    (\<open>NegativeLength\<close>, \<open>IntOverflow\<close>, \<open>BufferOverrun\<close>).
\<close>

type_synonym u8 = "8 word"
type_synonym u32 = "32 word"

datatype error =
    Unsupported           \<comment> \<open>brainkey shorter than 16 bytes (line 56)\<close>
  | DerivationFailure     \<comment> \<open>\<^verbatim>\<open>PKCS5_PBKDF2_HMAC\<close> did not return 1 (line 78)\<close>
  | NegativeLength        \<comment> \<open>\<^verbatim>\<open>memset\<close> with a negative length (line 68)\<close>
  | InvalidShapeRequest   \<comment> \<open>lines 97 and 103\<close>
  | IntOverflow           \<comment> \<open>\<^verbatim>\<open>bits + 7\<close> beyond \<^verbatim>\<open>INT_MAX\<close> (line 105)\<close>
  | NoBytes               \<comment> \<open>\<^verbatim>\<open>bk_RAND_bytes\<close> returned a length \<open>\<le> 0\<close> (line 116)\<close>
  | BufferOverrun         \<comment> \<open>an index outside the buffer (lines 121 to 132)\<close>
  | InvalidRange          \<comment> \<open>line 149\<close>
  | SamplingExhausted     \<comment> \<open>lines 181 and 191\<close>
  | OrderUnavailable      \<comment> \<open>line 217\<close>
  | PointMulFailure       \<comment> \<open>line 225\<close>
  | SetPrivateFailure     \<comment> \<open>line 228\<close>
  | SetPublicFailure      \<comment> \<open>line 230\<close>
  | LibraryFailure        \<comment> \<open>libcrypto's own generator returned 0 (line 205)\<close>

subsection \<open>The keystream: \<^verbatim>\<open>bk_RAND_bytes\<close>\<close>

text \<open>
  \<^verbatim>\<open>PKCS5_PBKDF2_HMAC(pass, passlen, salt, saltlen, iter, EVP_sha256(), keylen, out)\<close>:
  password, salt, iteration count and key length to the derived key, or \<open>None\<close> when
  the call does not return 1.
\<close>

type_synonym kdf = "string \<Rightarrow> string \<Rightarrow> nat \<Rightarrow> nat \<Rightarrow> u8 list option"

text \<open>What a C function reads from a \<^verbatim>\<open>char *\<close>: the bytes before the first NUL.\<close>

definition c_str :: "string \<Rightarrow> string" where
  "c_str s = takeWhile (\<lambda>c. c \<noteq> CHR 0x00) s"

definition hex_digit :: "nat \<Rightarrow> char" where
  "hex_digit d = ''0123456789abcdef'' ! d"

text \<open>\<^verbatim>\<open>%08x\<close> of an \<^verbatim>\<open>unsigned int\<close>: eight nibbles, the most significant first.\<close>

definition hex8 :: "u32 \<Rightarrow> string" where
  "hex8 c = map (\<lambda>i. hex_digit (unat (drop_bit (4 * i) c AND 15))) [7, 6, 5, 4, 3, 2, 1, 0]"

definition init_salt :: string where
  "init_salt = ''opmsg-brainkey-v1''"

text \<open>
  \<^verbatim>\<open>snprintf(saltbuf, sizeof(saltbuf) - 1, "%s.%s.%08x", salt.c_str(), init_salt, salt_cnt++)\<close>
  writes at most 126 characters and a NUL into \<^verbatim>\<open>saltbuf\<close>.
\<close>

definition snprintf_salt :: "string \<Rightarrow> u32 \<Rightarrow> string" where
  "snprintf_salt salt cnt = take 126 (c_str salt @ ''.'' @ init_salt @ ''.'' @ hex8 cnt)"

text \<open>
  \<^verbatim>\<open>out\<close> is an array of 32 bytes, zero at entry and kept across the iterations; the
  derivation writes its key into it.
\<close>

definition write_out :: "u8 list \<Rightarrow> u8 list \<Rightarrow> u8 list" where
  "write_out dk out = take 32 (dk @ drop (length dk) out)"

text \<open>\<^verbatim>\<open>memcpy(buf + have, out, need)\<close>.\<close>

definition memcpy :: "u8 list \<Rightarrow> nat \<Rightarrow> u8 list \<Rightarrow> nat \<Rightarrow> u8 list" where
  "memcpy buf have out need = take have buf @ take need out @ drop (have + need) buf"

text \<open>
  The loop of lines 70 to 85. \<open>have\<close> grows by \<open>need \<ge> 1\<close> in every iteration. The
  counter is incremented while the salt is formatted, before the derivation is called.
\<close>

function fill_loop ::
  "kdf \<Rightarrow> string \<Rightarrow> string \<Rightarrow> nat \<Rightarrow> u8 list \<Rightarrow> u8 list \<Rightarrow> nat \<Rightarrow> u32 \<Rightarrow> (error + u8 list) \<times> u32"
where
  "fill_loop kdf salt pass buflen out buf have salt_cnt =
     (if have < buflen then
        (let saltbuf = snprintf_salt salt salt_cnt;
             salt_cnt' = salt_cnt + 1
         in case kdf pass (c_str saltbuf) 10000 32 of
              None \<Rightarrow> (Inl DerivationFailure, salt_cnt')
            | Some dk \<Rightarrow>
                (let out' = write_out dk out;
                     need = (if buflen - have > 32 then 32 else buflen - have);
                     buf' = memcpy buf have out' need
                 in fill_loop kdf salt pass buflen out' buf' (have + need) salt_cnt'))
      else (Inr buf, salt_cnt))"
  by pat_completeness auto
termination
  by (relation "measure (\<lambda>(kdf, salt, pass, buflen, out, buf, have, cnt). buflen - have)") auto

declare fill_loop.simps [simp del]

definition bk_RAND_bytes :: "kdf \<Rightarrow> string \<Rightarrow> int \<Rightarrow> u32 \<Rightarrow> (error + u8 list) \<times> u32" where
  "bk_RAND_bytes kdf bk buflen salt_cnt =
     (if length bk < 16 then (Inl Unsupported, salt_cnt)
      else if buflen < 0 then (Inl NegativeLength, salt_cnt)
      else fill_loop kdf (take 4 bk) (drop 4 bk) (nat buflen)
             (replicate 32 0) (replicate (nat buflen) 0) 0 salt_cnt)"

subsection \<open>Big numbers as integers\<close>

text \<open>\<^verbatim>\<open>BN_bin2bn\<close>: the bytes as a big-endian magnitude.\<close>

definition BN_bin2bn :: "u8 list \<Rightarrow> int" where
  "BN_bin2bn buf = foldl (\<lambda>acc b. acc * 256 + uint b) 0 buf"

text \<open>\<^verbatim>\<open>BN_num_bits\<close>: the number of significant bits of the magnitude.\<close>

fun num_bits :: "nat \<Rightarrow> nat" where
  "num_bits n = (if n = 0 then 0 else Suc (num_bits (n div 2)))"

declare num_bits.simps [simp del]

definition BN_num_bits :: "int \<Rightarrow> int" where
  "BN_num_bits a = int (num_bits (nat \<bar>a\<bar>))"

text \<open>\<^verbatim>\<open>BN_is_bit_set\<close> answers 0 for a negative index.\<close>

definition BN_is_bit_set :: "int \<Rightarrow> int \<Rightarrow> bool" where
  "BN_is_bit_set a n = (0 \<le> n \<and> bit (nat \<bar>a\<bar>) (nat n))"

subsection \<open>Integers of a given bit length: \<^verbatim>\<open>bk_bnrand\<close>\<close>

definition bk_BN_RAND_TOP_ANY :: int where
  "bk_BN_RAND_TOP_ANY = - 1"

definition bk_BN_RAND_BOTTOM_ANY :: int where
  "bk_BN_RAND_BOTTOM_ANY = 0"

definition INT_MAX :: int where
  "INT_MAX = 2147483647"

text \<open>
  \<^verbatim>\<open>buf[i] = f(buf[i])\<close> on a buffer of known length: \<open>None\<close> when \<open>i\<close> is outside.
\<close>

definition poke :: "u8 list \<Rightarrow> int \<Rightarrow> (u8 \<Rightarrow> u8) \<Rightarrow> u8 list option" where
  "poke buf i f =
     (if 0 \<le> i \<and> i < int (length buf) then Some (buf[nat i := f (buf ! nat i)]) else None)"

text \<open>
  \<^verbatim>\<open>b |= m\<close> and \<^verbatim>\<open>b &= m\<close> on an \<^verbatim>\<open>unsigned char\<close> with an \<^verbatim>\<open>int\<close> operand:
  the byte is promoted to \<^verbatim>\<open>int\<close>, combined, and cut back to 8 bits.
\<close>

definition or_u8 :: "int \<Rightarrow> u8 \<Rightarrow> u8" where
  "or_u8 m b = word_of_int (uint b OR m)"

definition and_u8 :: "int \<Rightarrow> u8 \<Rightarrow> u8" where
  "and_u8 m b = word_of_int (uint b AND m)"

text \<open>
  Lines 118 to 132: the top bits, the mask, the bottom bit. \<open>bit_n\<close>,
  \<open>msk\<close> and \<open>top_n\<close> are the variables \<^verbatim>\<open>bit\<close>, \<^verbatim>\<open>mask\<close> and \<^verbatim>\<open>top\<close> of the
  source (the three names are constants of HOL); likewise \<open>rng\<close> for \<^verbatim>\<open>range\<close> below.
\<close>

definition shape :: "u8 list \<Rightarrow> int \<Rightarrow> int \<Rightarrow> int \<Rightarrow> int \<Rightarrow> int \<Rightarrow> u8 list option" where
  "shape buf bytes bit_n msk top_n bottom =
     Option.bind
       (if top_n \<ge> 0 then
          (if top_n \<noteq> 0 then
             (if bit_n = 0 then
                Option.bind (poke buf 0 (\<lambda>_. 1)) (\<lambda>buf1. poke buf1 1 (or_u8 0x80))
              else poke buf 0 (or_u8 (push_bit (nat (bit_n - 1)) 3)))
           else poke buf 0 (or_u8 (push_bit (nat bit_n) 1)))
        else Some buf)
       (\<lambda>buf2. Option.bind (poke buf2 0 (and_u8 (NOT msk)))
          (\<lambda>buf3. if bottom \<noteq> 0 then poke buf3 (bytes - 1) (or_u8 1) else Some buf3))"

text \<open>
  \<^verbatim>\<open>top\<close> is an \<^verbatim>\<open>int\<close>. The file names only \<^verbatim>\<open>bk_BN_RAND_TOP_ANY = -1\<close>; lines 118
  to 129 read it as libcrypto does: a negative value asks for nothing, \<open>0\<close> asks for the
  top bit (the specification's \<open>NONZERO_TOP_BIT\<close>) and a positive value asks for the two
  top bits (\<open>TWO_TOP_BITS\<close>). \<^verbatim>\<open>bottom\<close> is \<open>0\<close> or asks for an odd number.

  \<open>bits + 7\<close> is computed in \<^verbatim>\<open>int\<close>; beyond \<^verbatim>\<open>INT_MAX\<close> it is undefined. Below,
  \<open>bits \<ge> 1\<close>, so that \<^verbatim>\<open>/\<close> and \<^verbatim>\<open>%\<close> of C++ agree with \<open>div\<close> and \<open>mod\<close>.
  \<^verbatim>\<open>bk_RAND_bytes\<close> returns \<open>buflen\<close> when it succeeds, which the caller tests
  with \<^verbatim>\<open><= 0\<close>.
\<close>

definition bk_bnrand :: "kdf \<Rightarrow> string \<Rightarrow> int \<Rightarrow> int \<Rightarrow> int \<Rightarrow> u32 \<Rightarrow> (error + int) \<times> u32" where
  "bk_bnrand kdf bk bits top_n bottom salt_cnt =
     (if bits = 0 then
        (if top_n \<noteq> bk_BN_RAND_TOP_ANY \<or> bottom \<noteq> bk_BN_RAND_BOTTOM_ANY
         then (Inl InvalidShapeRequest, salt_cnt)
         else (Inr 0, salt_cnt))
      else if bits < 0 \<or> (bits = 1 \<and> top_n > 0) then (Inl InvalidShapeRequest, salt_cnt)
      else if bits + 7 > INT_MAX then (Inl IntOverflow, salt_cnt)
      else
        (let bytes = (bits + 7) div 8;
             bit_n = (bits - 1) mod 8;
             msk = push_bit (nat (bit_n + 1)) (0xff :: int)
         in case bk_RAND_bytes kdf bk bytes salt_cnt of
              (Inl e, salt_cnt') \<Rightarrow> (Inl e, salt_cnt')
            | (Inr buf, salt_cnt') \<Rightarrow>
                if bytes \<le> 0 then (Inl NoBytes, salt_cnt')
                else
                  (case shape buf bytes bit_n msk top_n bottom of
                     None \<Rightarrow> (Inl BufferOverrun, salt_cnt')
                   | Some buf' \<Rightarrow> (Inr (BN_bin2bn buf'), salt_cnt'))))"

subsection \<open>Integers below a range: \<^verbatim>\<open>bk_bnrand_range\<close>\<close>

text \<open>Lines 172 to 178: \<open>r\<close> after at most two subtractions of the range.\<close>

definition sub_twice :: "int \<Rightarrow> int \<Rightarrow> int" where
  "sub_twice rng r =
     (if r \<ge> rng
      then (let r' = r - rng in if r' \<ge> rng then r' - rng else r')
      else r)"

text \<open>
  The two \<^verbatim>\<open>do ... while\<close> loops of lines 162 to 193. \<open>count\<close> is what is left of the
  100 attempts, a positive number; \<^verbatim>\<open>--count\<close> comes after the draw and before the
  loop test.
\<close>

fun range_loop3 :: "kdf \<Rightarrow> string \<Rightarrow> int \<Rightarrow> int \<Rightarrow> nat \<Rightarrow> u32 \<Rightarrow> (error + int) \<times> u32" where
  "range_loop3 kdf bk rng n count salt_cnt =
     (case bk_bnrand kdf bk (n + 1) bk_BN_RAND_TOP_ANY bk_BN_RAND_BOTTOM_ANY salt_cnt of
        (Inl e, salt_cnt') \<Rightarrow> (Inl e, salt_cnt')
      | (Inr r, salt_cnt') \<Rightarrow>
          (let r1 = sub_twice rng r
           in if count - 1 = 0 then (Inl SamplingExhausted, salt_cnt')
              else if r1 \<ge> rng then range_loop3 kdf bk rng n (count - 1) salt_cnt'
              else (Inr r1, salt_cnt')))"

fun range_loop1 :: "kdf \<Rightarrow> string \<Rightarrow> int \<Rightarrow> int \<Rightarrow> nat \<Rightarrow> u32 \<Rightarrow> (error + int) \<times> u32" where
  "range_loop1 kdf bk rng n count salt_cnt =
     (case bk_bnrand kdf bk n bk_BN_RAND_TOP_ANY bk_BN_RAND_BOTTOM_ANY salt_cnt of
        (Inl e, salt_cnt') \<Rightarrow> (Inl e, salt_cnt')
      | (Inr r, salt_cnt') \<Rightarrow>
          if count - 1 = 0 then (Inl SamplingExhausted, salt_cnt')
          else if r \<ge> rng then range_loop1 kdf bk rng n (count - 1) salt_cnt'
          else (Inr r, salt_cnt'))"

declare range_loop3.simps [simp del] range_loop1.simps [simp del]

definition bk_bnrand_range :: "kdf \<Rightarrow> string \<Rightarrow> int \<Rightarrow> u32 \<Rightarrow> (error + int) \<times> u32" where
  "bk_bnrand_range kdf bk rng salt_cnt =
     (if rng < 0 \<or> rng = 0 then (Inl InvalidRange, salt_cnt)
      else
        (let n = BN_num_bits rng
         in if n = 1 then (Inr 0, salt_cnt)
            else if \<not> BN_is_bit_set rng (n - 2) \<and> \<not> BN_is_bit_set rng (n - 3)
            then range_loop3 kdf bk rng n 100 salt_cnt
            else range_loop1 kdf bk rng n 100 salt_cnt))"

subsection \<open>The key generator: \<^verbatim>\<open>EC_KEY_generate_key\<close>\<close>

text \<open>The key object: its group, and the two fields the generator sets.\<close>

record ('g, 'p) ec_key =
  group :: 'g
  priv_key :: "int option"
  pub_key :: "'p option"

text \<open>
  What the generator calls in libcrypto. A setter returns its status and the key object
  it leaves behind. libcrypto's own \<^verbatim>\<open>::EC_KEY_generate_key\<close> draws from the system's
  random source, whose state is \<open>'w\<close>.
\<close>

record ('g, 'p, 'w) libcrypto =
  EC_GROUP_get_order :: "'g \<Rightarrow> int option"
  EC_POINT_mul :: "'g \<Rightarrow> int \<Rightarrow> 'p option"
  EC_KEY_set_private_key :: "('g, 'p) ec_key \<Rightarrow> int \<Rightarrow> bool \<times> ('g, 'p) ec_key"
  EC_KEY_set_public_key :: "('g, 'p) ec_key \<Rightarrow> 'p \<Rightarrow> bool \<times> ('g, 'p) ec_key"
  lib_EC_KEY_generate_key :: "('g, 'p) ec_key \<Rightarrow> 'w \<Rightarrow> bool \<times> ('g, 'p) ec_key \<times> 'w"

text \<open>
  Lines 219 to 222. Nothing bounds the number of iterations: the loop is a partial
  function, \<open>None\<close> when it runs forever.
\<close>

partial_function (option) priv_key_loop ::
  "kdf \<Rightarrow> string \<Rightarrow> int \<Rightarrow> u32 \<Rightarrow> ((error + int) \<times> u32) option"
where
  "priv_key_loop kdf bk order salt_cnt =
     (case bk_bnrand_range kdf bk order salt_cnt of
        (Inl e, salt_cnt') \<Rightarrow> Some (Inl e, salt_cnt')
      | (Inr r, salt_cnt') \<Rightarrow>
          if r = 0 then priv_key_loop kdf bk order salt_cnt'
          else Some (Inr r, salt_cnt'))"

text \<open>
  The result is the status, the key object, the counter and the state of the system's
  random source.
\<close>

definition EC_KEY_generate_key ::
  "kdf \<Rightarrow> ('g, 'p, 'w) libcrypto \<Rightarrow> string \<Rightarrow> ('g, 'p) ec_key \<Rightarrow> u32 \<Rightarrow> 'w
     \<Rightarrow> ((error + unit) \<times> ('g, 'p) ec_key \<times> u32 \<times> 'w) option"
where
  "EC_KEY_generate_key kdf lib bk eckey salt_cnt w =
     (if length bk < 16 then
        (case lib_EC_KEY_generate_key lib eckey w of
           (ok, eckey', w') \<Rightarrow>
             Some (if ok then Inr () else Inl LibraryFailure, eckey', salt_cnt, w'))
      else
        (case EC_GROUP_get_order lib (group eckey) of
           None \<Rightarrow> Some (Inl OrderUnavailable, eckey, salt_cnt, w)
         | Some order \<Rightarrow>
             (case priv_key_loop kdf bk order salt_cnt of
                None \<Rightarrow> None
              | Some (Inl e, salt_cnt') \<Rightarrow> Some (Inl e, eckey, salt_cnt', w)
              | Some (Inr priv, salt_cnt') \<Rightarrow>
                  (case EC_POINT_mul lib (group eckey) priv of
                     None \<Rightarrow> Some (Inl PointMulFailure, eckey, salt_cnt', w)
                   | Some pub \<Rightarrow>
                       (case EC_KEY_set_private_key lib eckey priv of
                          (False, eckey1) \<Rightarrow> Some (Inl SetPrivateFailure, eckey1, salt_cnt', w)
                        | (True, eckey1) \<Rightarrow>
                            (case EC_KEY_set_public_key lib eckey1 pub of
                               (False, eckey2) \<Rightarrow> Some (Inl SetPublicFailure, eckey2, salt_cnt', w)
                             | (True, eckey2) \<Rightarrow> Some (Inr (), eckey2, salt_cnt', w)))))))"

subsection \<open>The keystream as the specification words it\<close>

text \<open>
  First the derivation call of line 74 for the counter value \<open>c\<close>, as the loop makes it.
\<close>

definition block_of :: "kdf \<Rightarrow> string \<Rightarrow> string \<Rightarrow> u32 \<Rightarrow> u8 list option" where
  "block_of kdf salt pass c = kdf pass (c_str (snprintf_salt salt c)) 10000 32"

text \<open>
  The specification's block: the passphrase is the brainkey from offset 4, the salt is
  the first four bytes of the brainkey, the version string and the counter as eight hex
  digits; 10000 iterations, 32 bytes. A fill of \<open>L\<close> bytes takes \<open>\<lceil>L / 32\<rceil>\<close> blocks
  at consecutive counter values and cuts the last one.
\<close>

definition claimed_salt :: "string \<Rightarrow> u32 \<Rightarrow> string" where
  "claimed_salt bk c = take 4 bk @ ''.opmsg-brainkey-v1.'' @ hex8 c"

definition claimed_block :: "kdf \<Rightarrow> string \<Rightarrow> u32 \<Rightarrow> u8 list option" where
  "claimed_block kdf bk c = kdf (drop 4 bk) (claimed_salt bk c) 10000 32"

definition claimed_fill :: "kdf \<Rightarrow> string \<Rightarrow> nat \<Rightarrow> u32 \<Rightarrow> (u8 list \<times> u32) option" where
  "claimed_fill kdf bk L c =
     (let k = (L + 31) div 32;
          blocks = map (\<lambda>i. claimed_block kdf bk (c + of_nat i)) [0..<k]
      in if list_all (\<lambda>b. b \<noteq> None) blocks
         then Some (take L (concat (map the blocks)), c + of_nat k)
         else None)"

subsection \<open>Sample inputs\<close>

text \<open>
  Small derivation functions and brainkeys on which the theorems are instantiated.
  \<open>kdf_sample\<close> lets every byte depend on its index, on the length of the salt and on
  the last character of the salt; \<open>kdf_fail1\<close> fails on a salt that ends in \<open>1\<close>;
  \<open>kdf_late\<close> answers \<open>0xff\<close> bytes except for the salt that ends in \<open>63\<close>.
\<close>

definition kdf_sample :: kdf where
  "kdf_sample pass salt iter keylen =
     Some (map (\<lambda>i. of_nat (i + length salt + of_char (last salt))) [0..<keylen])"

definition kdf_fail1 :: kdf where
  "kdf_fail1 pass salt iter keylen =
     (if last salt = CHR ''1'' then None else kdf_sample pass salt iter keylen)"

definition kdf_late :: kdf where
  "kdf_late pass salt iter keylen =
     Some (replicate keylen (if drop (length salt - 2) salt = ''63'' then 0 else 0xff))"

definition bk0 :: string where
  "bk0 = ''abcdopmsg-test-pass''"

definition bk_nul :: string where
  "bk_nul = [CHR ''a'', CHR ''b'', CHR 0x00, CHR ''d''] @ ''opmsg-test-pass''"

text \<open>
  A sample libcrypto on the additive group of the integers modulo the order, with
  generator 1: a group is its order, a point is a residue. Its setters store their field.
  Its own key generator counts its calls in the state of the random source.
  \<open>lib_nopub\<close> is the same library with a setter of the public key that fails.
\<close>

definition lib_sample :: "(int, int, nat) libcrypto" where
  "lib_sample =
     \<lparr>EC_GROUP_get_order = (\<lambda>g. Some g),
      EC_POINT_mul = (\<lambda>g s. Some (s mod g)),
      EC_KEY_set_private_key = (\<lambda>k s. (True, k\<lparr>priv_key := Some s\<rparr>)),
      EC_KEY_set_public_key = (\<lambda>k p. (True, k\<lparr>pub_key := Some p\<rparr>)),
      lib_EC_KEY_generate_key =
        (\<lambda>k w. (True, k\<lparr>priv_key := Some (1 + int w), pub_key := Some (1 + int w)\<rparr>, Suc w))\<rparr>"

definition lib_nopub :: "(int, int, nat) libcrypto" where
  "lib_nopub = lib_sample\<lparr>EC_KEY_set_public_key := (\<lambda>k p. (False, k))\<rparr>"

definition key0 :: "(int, int) ec_key" where
  "key0 = \<lparr>group = 11, priv_key = None, pub_key = None\<rparr>"

text \<open>What a setter of the key object does when it succeeds: it stores its field.\<close>

definition setters_store :: "('g, 'p, 'w) libcrypto \<Rightarrow> bool" where
  "setters_store lib \<longleftrightarrow>
     (\<forall>k s k'. EC_KEY_set_private_key lib k s = (True, k') \<longrightarrow> k' = k\<lparr>priv_key := Some s\<rparr>) \<and>
     (\<forall>k p k'. EC_KEY_set_public_key lib k p = (True, k') \<longrightarrow> k' = k\<lparr>pub_key := Some p\<rparr>)"

subsection \<open>Auxiliary notions for the proofs\<close>

text \<open>
  What the bounds on a shaped buffer of \<open>n\<close> bytes with top bit index \<open>m\<close> need: the
  range of its first byte, its length, and the top bit of its second byte.
\<close>

definition shaped :: "nat \<Rightarrow> nat \<Rightarrow> int \<Rightarrow> u8 list \<Rightarrow> bool" where
  "shaped n m top_n buf \<longleftrightarrow>
     (\<exists>h rest. buf = h # rest \<and> Suc (length rest) = n \<and> uint h < 2 ^ Suc m \<and>
        (top_n = 0 \<longrightarrow> 2 ^ m \<le> uint h) \<and>
        (top_n > 0 \<and> m \<noteq> 0 \<longrightarrow> 3 * 2 ^ (m - 1) \<le> uint h) \<and>
        (top_n > 0 \<and> m = 0 \<longrightarrow> uint h = 1 \<and> (\<exists>b r. rest = b # r \<and> 128 \<le> uint b)))"

text \<open>
  The draws of \<^verbatim>\<open>bk_bnrand_range\<close> for a range of at least two bits. \<open>top_zeros\<close> is the
  test of line 157, \<open>draw_bits\<close> the number of bits of one draw, \<open>candidate\<close> the value
  that the loop test of lines 183 and 193 compares with the range. \<open>nth_draw \<dots> k\<close> makes
  \<open>k + 1\<close> draws in a row and answers the candidate and the counter of the last one, or
  the failure of the first draw that failed. \<open>reject_loop\<close> is the common shape of the
  two loops.
\<close>

definition top_zeros :: "int \<Rightarrow> bool" where
  "top_zeros rng =
     (\<not> BN_is_bit_set rng (BN_num_bits rng - 2) \<and> \<not> BN_is_bit_set rng (BN_num_bits rng - 3))"

definition draw_bits :: "int \<Rightarrow> int" where
  "draw_bits rng = (if top_zeros rng then BN_num_bits rng + 1 else BN_num_bits rng)"

definition candidate :: "int \<Rightarrow> int \<Rightarrow> int" where
  "candidate rng r = (if top_zeros rng then sub_twice rng r else r)"

fun nth_draw :: "kdf \<Rightarrow> string \<Rightarrow> int \<Rightarrow> u32 \<Rightarrow> nat \<Rightarrow> (error + int) \<times> u32" where
  "nth_draw kdf bk rng salt_cnt 0 =
     (case bk_bnrand kdf bk (draw_bits rng) bk_BN_RAND_TOP_ANY bk_BN_RAND_BOTTOM_ANY salt_cnt of
        (Inl e, salt_cnt') \<Rightarrow> (Inl e, salt_cnt')
      | (Inr r, salt_cnt') \<Rightarrow> (Inr (candidate rng r), salt_cnt'))"
| "nth_draw kdf bk rng salt_cnt (Suc k) =
     (case bk_bnrand kdf bk (draw_bits rng) bk_BN_RAND_TOP_ANY bk_BN_RAND_BOTTOM_ANY salt_cnt of
        (Inl e, salt_cnt') \<Rightarrow> (Inl e, salt_cnt')
      | (Inr r, salt_cnt') \<Rightarrow> nth_draw kdf bk rng salt_cnt' k)"

text \<open>The draw \<open>i\<close> of a call is rejected: it was made and its candidate is not below the range.\<close>

definition rejected :: "kdf \<Rightarrow> string \<Rightarrow> int \<Rightarrow> u32 \<Rightarrow> nat \<Rightarrow> bool" where
  "rejected kdf bk rng salt_cnt i =
     (case nth_draw kdf bk rng salt_cnt i of
        (Inl e, salt_cnt') \<Rightarrow> False
      | (Inr r, salt_cnt') \<Rightarrow> rng \<le> r)"

fun reject_loop :: "kdf \<Rightarrow> string \<Rightarrow> int \<Rightarrow> nat \<Rightarrow> u32 \<Rightarrow> (error + int) \<times> u32" where
  "reject_loop kdf bk rng count salt_cnt =
     (case bk_bnrand kdf bk (draw_bits rng) bk_BN_RAND_TOP_ANY bk_BN_RAND_BOTTOM_ANY salt_cnt of
        (Inl e, salt_cnt') \<Rightarrow> (Inl e, salt_cnt')
      | (Inr r, salt_cnt') \<Rightarrow>
          if count - 1 = 0 then (Inl SamplingExhausted, salt_cnt')
          else if candidate rng r \<ge> rng then reject_loop kdf bk rng (count - 1) salt_cnt'
          else (Inr (candidate rng r), salt_cnt'))"

declare reject_loop.simps [simp del]

text \<open>
  The calls of \<^verbatim>\<open>bk_bnrand_range\<close> that the loop of lines 219 to 222 makes.
  \<open>nth_scalar \<dots> k\<close> makes \<open>k + 1\<close> calls in a row, each from the counter that the call
  before it left, and answers the result of the last one, or the failure of the first
  call that failed.
\<close>

fun nth_scalar :: "kdf \<Rightarrow> string \<Rightarrow> int \<Rightarrow> u32 \<Rightarrow> nat \<Rightarrow> (error + int) \<times> u32" where
  "nth_scalar kdf bk order salt_cnt 0 = bk_bnrand_range kdf bk order salt_cnt"
| "nth_scalar kdf bk order salt_cnt (Suc k) =
     (case bk_bnrand_range kdf bk order salt_cnt of
        (Inl e, salt_cnt') \<Rightarrow> (Inl e, salt_cnt')
      | (Inr r, salt_cnt') \<Rightarrow> nth_scalar kdf bk order salt_cnt' k)"

section \<open>Properties\<close>

subsection \<open>The salt string\<close>

lemma hex_digit_not_nul: "hex_digit (unat ((w :: u32) AND 15)) \<noteq> CHR 0x00"
proof -
  have "unat (w AND 15) \<le> unat (15 :: u32)"
    by (rule word_and_le1 [THEN word_le_nat_alt [THEN iffD1]])
  then have "unat (w AND 15) < length ''0123456789abcdef''" by simp
  then have "hex_digit (unat (w AND 15)) \<in> set ''0123456789abcdef''"
    unfolding hex_digit_def by (rule nth_mem)
  then show ?thesis by auto
qed

lemma length_hex8: "length (hex8 c) = 8"
  by (simp add: hex8_def)

lemma hex8_no_nul: "CHR 0x00 \<notin> set (hex8 c)"
  by (simp add: hex8_def hex_digit_not_nul [THEN not_sym])

lemma c_str_no_nul: "CHR 0x00 \<notin> set xs \<Longrightarrow> c_str xs = xs"
  by (induction xs) (auto simp: c_str_def)

lemma c_str_idem_set: "CHR 0x00 \<notin> set (c_str xs)"
  unfolding c_str_def by (induction xs) auto

lemma length_c_str: "length (c_str xs) \<le> length xs"
  by (simp add: c_str_def length_takeWhile_le)

lemma c_str_snprintf_salt:
  assumes "length salt \<le> 4"
  shows "c_str (snprintf_salt salt c) = c_str salt @ ''.opmsg-brainkey-v1.'' @ hex8 c"
proof -
  let ?s = "c_str salt @ ''.'' @ init_salt @ ''.'' @ hex8 c"
  have len: "length ?s \<le> 126"
    using assms length_c_str [of salt] by (simp add: init_salt_def length_hex8)
  have nn: "CHR 0x00 \<notin> set ?s"
    using c_str_idem_set [of salt] hex8_no_nul [of c] by (auto simp: init_salt_def)
  have "snprintf_salt salt c = ?s"
    using len by (simp add: snprintf_salt_def)
  then show ?thesis
    using nn by (simp add: c_str_no_nul init_salt_def)
qed

subsection \<open>The fill loop\<close>

lemma write_out_full: "length dk = 32 \<Longrightarrow> length out = 32 \<Longrightarrow> write_out dk out = dk"
  by (simp add: write_out_def)

lemma length_write_out: "length out = 32 \<Longrightarrow> length (write_out dk out) = 32"
  by (simp add: write_out_def)

lemma length_memcpy:
  "length out = 32 \<Longrightarrow> need \<le> 32 \<Longrightarrow> have + need \<le> length buf \<Longrightarrow>
   length (memcpy buf have out need) = length buf"
  by (simp add: memcpy_def)

lemma fill_loop_done: "\<not> have < buflen \<Longrightarrow> fill_loop kdf salt pass buflen out buf have c = (Inr buf, c)"
  by (simp add: fill_loop.simps)

lemma fill_loop_fail:
  "have < buflen \<Longrightarrow> block_of kdf salt pass c = None \<Longrightarrow>
   fill_loop kdf salt pass buflen out buf have c = (Inl DerivationFailure, c + 1)"
  by (subst fill_loop.simps) (simp add: block_of_def)

lemma fill_loop_step:
  "have < buflen \<Longrightarrow> block_of kdf salt pass c = Some dk \<Longrightarrow>
   fill_loop kdf salt pass buflen out buf have c =
     fill_loop kdf salt pass buflen (write_out dk out)
       (memcpy buf have (write_out dk out) (min 32 (buflen - have)))
       (have + min 32 (buflen - have)) (c + 1)"
  by (subst fill_loop.simps) (auto simp add: block_of_def Let_def min_def)

lemma fill_loop_blocks:
  assumes "length buf = L" "have \<le> L" "length out = 32"
    and "k = (L - have + 31) div 32"
    and "\<forall>i<k. block_of kdf salt pass (c + of_nat i) = Some (B i) \<and> length (B i) = 32"
  shows "fill_loop kdf salt pass L out buf have c =
           (Inr (take have buf @ take (L - have) (concat (map B [0..<k]))), c + of_nat k)"
  using assms
proof (induction k arbitrary: buf "have" out c B)
  case 0
  then have "have = L" by simp
  with 0 show ?case by (simp add: fill_loop_done)
next
  case (Suc k)
  from Suc.prems have lt: "have < L" by (cases "have < L") auto
  define need where "need = min 32 (L - have)"
  have need: "need \<le> 32" "0 < need" "have + need \<le> L"
    using lt by (auto simp: need_def)
  from Suc.prems have b0: "block_of kdf salt pass c = Some (B 0)" "length (B 0) = 32"
    by (auto dest: spec [of _ 0])
  have out': "write_out (B 0) out = B 0"
    using b0 Suc.prems by (simp add: write_out_full)
  define buf' where "buf' = memcpy buf have (B 0) need"
  have len': "length buf' = L"
    using Suc.prems need b0 by (simp add: buf'_def length_memcpy)
  have k: "k = (L - (have + need) + 31) div 32"
    using Suc.prems(4) lt by (auto simp: need_def min_def)
  have blocks: "\<forall>i<k. block_of kdf salt pass (c + 1 + of_nat i) = Some (B (Suc i)) \<and> length (B (Suc i)) = 32"
  proof (intro allI impI)
    fix i assume "i < k"
    then have "Suc i < Suc k" by simp
    with Suc.prems(5) have "block_of kdf salt pass (c + of_nat (Suc i)) = Some (B (Suc i)) \<and> length (B (Suc i)) = 32"
      by blast
    then show "block_of kdf salt pass (c + 1 + of_nat i) = Some (B (Suc i)) \<and> length (B (Suc i)) = 32"
      by (simp add: ac_simps)
  qed
  have step: "fill_loop kdf salt pass L out buf have c =
      fill_loop kdf salt pass L (B 0) buf' (have + need) (c + 1)"
    using fill_loop_step [OF lt b0(1), of out buf] by (simp add: out' buf'_def need_def)
  have ih: "fill_loop kdf salt pass L (B 0) buf' (have + need) (c + 1) =
      (Inr (take (have + need) buf' @ take (L - (have + need)) (concat (map (\<lambda>i. B (Suc i)) [0..<k]))), c + 1 + of_nat k)"
    by (rule Suc.IH [OF len' need(3) b0(2) k blocks])
  have tk: "take (have + need) buf' = take have buf @ take need (B 0)"
    using Suc.prems(1) need b0(2) by (simp add: buf'_def memcpy_def)
  have cc: "concat (map B [0..<Suc k]) = B 0 @ concat (map (\<lambda>i. B (Suc i)) [0..<k])"
    by (simp add: upt_rec [of 0 "Suc k"] map_Suc_upt [symmetric] comp_def del: upt_Suc)
  have fin: "take need (B 0) @ take (L - (have + need)) (concat (map (\<lambda>i. B (Suc i)) [0..<k]))
      = take (L - have) (concat (map B [0..<Suc k]))"
    unfolding cc using b0(2) need lt by (auto simp: need_def min_def)
  show ?case
    unfolding step ih tk using fin by (simp add: ac_simps)
qed

lemma fill_loop_fails_at:
  assumes "have + 32 * j < L"
    and "\<forall>i<j. \<exists>dk. block_of kdf salt pass (c + of_nat i) = Some dk"
    and "block_of kdf salt pass (c + of_nat j) = None"
  shows "fill_loop kdf salt pass L out buf have c = (Inl DerivationFailure, c + of_nat j + 1)"
  using assms
proof (induction j arbitrary: buf "have" out c)
  case 0
  then show ?case by (simp add: fill_loop_fail)
next
  case (Suc j)
  from Suc.prems have lt: "have < L" by simp
  from Suc.prems(2) obtain dk where dk: "block_of kdf salt pass c = Some dk"
    by (auto dest: spec [of _ 0])
  have m: "min 32 (L - have) = 32" using Suc.prems(1) by simp
  have a: "have + 32 + 32 * j < L" using Suc.prems(1) by simp
  have b: "\<forall>i<j. \<exists>dk. block_of kdf salt pass (c + 1 + of_nat i) = Some dk"
  proof (intro allI impI)
    fix i assume "i < j"
    then have "Suc i < Suc j" by simp
    with Suc.prems(2) obtain d where "block_of kdf salt pass (c + of_nat (Suc i)) = Some d" by blast
    then show "\<exists>dk. block_of kdf salt pass (c + 1 + of_nat i) = Some dk"
      by (simp add: ac_simps)
  qed
  have cn: "block_of kdf salt pass (c + 1 + of_nat j) = None"
    using Suc.prems(3) by (simp add: ac_simps)
  show ?case
    unfolding fill_loop_step [OF lt dk] m
    using Suc.IH [OF a b cn] by (simp add: ac_simps)
qed

subsection \<open>The keystream in blocks\<close>

lemma block_of_claimed:
  assumes "CHR 0x00 \<notin> set (take 4 bk)"
  shows "block_of kdf (take 4 bk) (drop 4 bk) c = claimed_block kdf bk c"
  using assms
  by (simp add: block_of_def claimed_block_def claimed_salt_def c_str_snprintf_salt c_str_no_nul)

lemma fill_loop_total:
  assumes "length buf = L" "length out = 32"
    and "\<forall>c dk. block_of kdf salt pass c = Some dk \<longrightarrow> length dk = 32"
  shows "fill_loop kdf salt pass L out buf 0 c =
    (let k = (L + 31) div 32;
         blocks = map (\<lambda>i. block_of kdf salt pass (c + of_nat i)) [0..<k]
     in if list_all (\<lambda>b. b \<noteq> None) blocks
        then (Inr (take L (concat (map the blocks))), c + of_nat k)
        else (Inl DerivationFailure,
              c + of_nat (LEAST j. block_of kdf salt pass (c + of_nat j) = None) + 1))"
proof -
  define k where "k = (L + 31) div 32"
  let ?f = "\<lambda>i. block_of kdf salt pass (c + of_nat i)"
  show ?thesis
  proof (cases "\<forall>i<k. ?f i \<noteq> None")
    case True
    then have all: "list_all (\<lambda>b. b \<noteq> None) (map ?f [0..<k])"
      by (simp add: list_all_iff)
    have B: "\<forall>i<k. ?f i = Some (the (?f i)) \<and> length (the (?f i)) = 32"
      using True assms(3) by (metis option.collapse)
    have "fill_loop kdf salt pass L out buf 0 c =
        (Inr (take 0 buf @ take (L - 0) (concat (map (\<lambda>i. the (?f i)) [0..<k]))), c + of_nat k)"
      by (rule fill_loop_blocks [OF assms(1) _ assms(2) _ B]) (simp_all add: k_def)
    then show ?thesis
      using all by (simp add: k_def [symmetric] comp_def)
  next
    case False
    then obtain i where i: "i < k" "?f i = None" by auto
    define j where "j = (LEAST j. ?f j = None)"
    have jn: "?f j = None" unfolding j_def using i(2) by (rule LeastI)
    have jle: "j \<le> i" unfolding j_def using i(2) by (rule Least_le)
    have jmin: "\<forall>i<j. \<exists>dk. ?f i = Some dk"
      using not_less_Least [of _ "\<lambda>j. ?f j = None"] by (auto simp: j_def)
    have "32 * j < L" using jle i(1) by (simp add: k_def)
    then have "fill_loop kdf salt pass L out buf 0 c = (Inl DerivationFailure, c + of_nat j + 1)"
      using fill_loop_fails_at [OF _ jmin jn, of 0 L out buf] by simp
    moreover have "\<not> list_all (\<lambda>b. b \<noteq> None) (map ?f [0..<k])"
      using i by (auto simp: list_all_iff)
    ultimately show ?thesis
      by (simp add: k_def [symmetric] j_def)
  qed
qed

text \<open>
  C1 (amended). For a brainkey of at least 16 bytes whose first four bytes hold no NUL,
  and a derivation function that answers 32 bytes when asked for 32, a fill of
  \<open>L \<ge> 1\<close> bytes is the fill of the specification: it succeeds exactly when the
  \<open>\<lceil>L / 32\<rceil>\<close> blocks at the counter values \<open>cnt, cnt + 1, \<dots>\<close> derive, its bytes
  are these blocks in order with the last one cut to the remaining length, and the
  counter ends at \<open>cnt + \<lceil>L / 32\<rceil>\<close>.
\<close>

theorem keystream_blocks:
  assumes "16 \<le> length bk" and "1 \<le> L"
    and "CHR 0x00 \<notin> set (take 4 bk)"
    and "\<forall>c dk. claimed_block kdf bk c = Some dk \<longrightarrow> length dk = 32"
  shows "claimed_fill kdf bk (nat L) cnt =
           (case bk_RAND_bytes kdf bk L cnt of
              (Inr buf, cnt') \<Rightarrow> Some (buf, cnt')
            | (Inl e, cnt') \<Rightarrow> None)"
proof -
  have eq: "block_of kdf (take 4 bk) (drop 4 bk) = claimed_block kdf bk"
    using block_of_claimed [OF assms(3)] by (intro ext)
  have len: "\<forall>c dk. block_of kdf (take 4 bk) (drop 4 bk) c = Some dk \<longrightarrow> length dk = 32"
    using assms(4) by (simp add: eq)
  have "bk_RAND_bytes kdf bk L cnt =
      fill_loop kdf (take 4 bk) (drop 4 bk) (nat L) (replicate 32 0) (replicate (nat L) 0) 0 cnt"
    using assms(1,2) by (simp add: bk_RAND_bytes_def)
  also note fill_loop_total [OF _ _ len, of "replicate (nat L) 0" "nat L" "replicate 32 0" cnt]
  finally show ?thesis
    by (simp add: claimed_fill_def eq Let_def)
qed

text \<open>
  C10. When the derivations for the first \<open>j\<close> blocks of a fill succeed and the
  derivation for the next block, which the fill still needs, fails, the fill reports
  failure and leaves the counter at \<open>cnt + j + 1\<close>: advanced for the \<open>j\<close> completed
  blocks and for the failed one.
\<close>

theorem fill_not_atomic:
  assumes "16 \<le> length bk" and "int (32 * j) < L"
    and "\<forall>i<j. block_of kdf (take 4 bk) (drop 4 bk) (cnt + of_nat i) \<noteq> None"
    and "block_of kdf (take 4 bk) (drop 4 bk) (cnt + of_nat j) = None"
  shows "bk_RAND_bytes kdf bk L cnt = (Inl DerivationFailure, cnt + of_nat j + 1)"
proof -
  have a: "0 + 32 * j < nat L" using assms(2) by simp
  have b: "\<forall>i<j. \<exists>dk. block_of kdf (take 4 bk) (drop 4 bk) (cnt + of_nat i) = Some dk"
    using assms(3) by auto
  have "bk_RAND_bytes kdf bk L cnt =
      fill_loop kdf (take 4 bk) (drop 4 bk) (nat L) (replicate 32 0) (replicate (nat L) 0) 0 cnt"
    using assms(1,2) by (simp add: bk_RAND_bytes_def)
  also have "\<dots> = (Inl DerivationFailure, cnt + of_nat j + 1)"
    by (rule fill_loop_fails_at [OF a b assms(4)])
  finally show ?thesis .
qed



text \<open>
  C1 as stated fails on a brainkey with a NUL among its first four bytes:
  \<^verbatim>\<open>salt.c_str()\<close> under \<^verbatim>\<open>%s\<close> ends at the NUL, so the salt of the block is
  \<open>ab.opmsg-brainkey-v1.00000000\<close> (29 characters) and not the 31 characters of the
  specification.
\<close>

theorem keystream_blocks_counterexample:
  "16 \<le> length bk_nul \<and>
   claimed_fill kdf_sample bk_nul 1 0 = Some ([79], 1) \<and>
   bk_RAND_bytes kdf_sample bk_nul 1 0 = (Inr [77], 1)"
  by code_simp

text \<open>The amended C1 on a fill of 34 bytes: two blocks, the second cut to 2 bytes.\<close>

theorem keystream_blocks_witness:
  "bk_RAND_bytes kdf_sample bk0 34 0 = (Inr (map of_nat [79..<111] @ [80, 81]), 2)"
proof -
  have h1: "16 \<le> length bk0" by (simp add: bk0_def)
  have h2: "1 \<le> (34 :: int)" by simp
  have h3: "CHR 0x00 \<notin> set (take 4 bk0)" by (simp add: bk0_def)
  have h4: "\<forall>c dk. claimed_block kdf_sample bk0 c = Some dk \<longrightarrow> length dk = 32"
    by (auto simp: claimed_block_def kdf_sample_def)
  have cf: "claimed_fill kdf_sample bk0 (nat 34) 0 = Some (map of_nat [79..<111] @ [80, 81], 2)"
    by code_simp
  show ?thesis
    using keystream_blocks [OF h1 h2 h3 h4, of 0] unfolding cf
    by (auto split: prod.splits sum.splits)
qed

text \<open>C10 on a fill of 40 bytes whose second derivation fails.\<close>

theorem fill_not_atomic_witness:
  "bk_RAND_bytes kdf_fail1 bk0 40 0 = (Inl DerivationFailure, 2)"
proof -
  have h1: "16 \<le> length bk0" by (simp add: bk0_def)
  have h2: "int (32 * 1) < 40" by simp
  have b0: "block_of kdf_fail1 (take 4 bk0) (drop 4 bk0) 0 \<noteq> None" by code_simp
  have h3: "\<forall>i<1. block_of kdf_fail1 (take 4 bk0) (drop 4 bk0) (0 + of_nat i) \<noteq> None"
    using b0 by simp
  have h4: "block_of kdf_fail1 (take 4 bk0) (drop 4 bk0) (0 + of_nat 1) = None" by code_simp
  show ?thesis
    using fill_not_atomic [OF h1 h2 h3 h4] by simp
qed

subsection \<open>Bytes under the top-bit rules and the mask\<close>

lemma uint_or_u8: 
  assumes "0 \<le> c" "c < 256" 
  shows "uint (or_u8 c b) = uint b OR c"
proof -
  have "uint b < 2 ^ 8" using uint_bounded [of b] by simp
  then have "uint b OR c < 2 ^ 8" using assms by (intro OR_upper) simp_all
  moreover have "0 \<le> uint b OR c" using assms by simp
  ultimately show ?thesis
    by (simp add: or_u8_def uint_word_of_int take_bit_int_eq_self)
qed

lemma and_not_shifted_ff:
  assumes "1 \<le> m" "0 \<le> x" "x < 256"
  shows "x AND NOT (push_bit m (255 :: int)) = take_bit m x"
proof (rule bit_eqI)
  fix k
  have ff: "(255 :: int) = mask 8" by (simp add: mask_eq_exp_minus_1)
  have "take_bit 8 x = x" using assms by (simp add: take_bit_int_eq_self)
  then have hi: "bit x k \<Longrightarrow> k < 8" by (metis bit_take_bit_iff)
  show "bit (x AND NOT (push_bit m 255)) k = bit (take_bit m x) k"
    using hi assms(1) by (auto simp: bit_and_iff bit_not_iff bit_push_bit_iff bit_take_bit_iff ff bit_mask_iff)
qed


lemma uint_and_u8_mask:
  assumes "1 \<le> m"
  shows "uint (and_u8 (NOT (push_bit m 255)) b) = take_bit m (uint b)"
proof -
  have b: "0 \<le> uint b" "uint b < 256" using uint_bounded [of b] by simp_all
  have e1: "uint b AND NOT (push_bit m 255) = take_bit m (uint b)"
    by (rule and_not_shifted_ff [OF assms b])
  have e2: "take_bit 8 (take_bit m (uint b)) = take_bit m (uint b)"
  proof (rule take_bit_int_eq_self)
    show "0 \<le> take_bit m (uint b)" by simp
    have "take_bit m (uint b) \<le> uint b" by (simp add: take_bit_int_less_eq_self_iff)
    then show "take_bit m (uint b) < 2 ^ 8" using b by simp
  qed
  have "uint (and_u8 (NOT (push_bit m 255)) b) = take_bit 8 (uint b AND NOT (push_bit m 255))"
    by (simp add: and_u8_def uint_word_of_int_eq)
  also have "\<dots> = take_bit 8 (take_bit m (uint b))" by (simp only: e1)
  also have "\<dots> = take_bit m (uint b)" by (rule e2)
  finally show ?thesis .
qed

lemma uint_top_any:
  "1 \<le> m \<Longrightarrow> uint (and_u8 (NOT (push_bit m 255)) b) < 2 ^ m"
  by (simp add: uint_and_u8_mask)

lemma uint_top_one:
  "uint (and_u8 (NOT (push_bit (Suc n) 255)) (or_u8 (push_bit n 1) b)) < 2 ^ Suc n"
  "n < 8 \<Longrightarrow> 2 ^ n \<le> uint (and_u8 (NOT (push_bit (Suc n) 255)) (or_u8 (push_bit n 1) b))"
proof -
  show "uint (and_u8 (NOT (push_bit (Suc n) 255)) (or_u8 (push_bit n 1) b)) < 2 ^ Suc n"
    using uint_top_any [of "Suc n"] by simp
  assume n: "n < 8"
  have "(2::int) ^ n < 2 ^ 8" using n by (intro power_strict_increasing) simp_all
  then have c: "push_bit n (1::int) < 256" by (simp add: push_bit_eq_mult)
  have c0: "0 \<le> push_bit n (1::int)" by simp
  have le: "1 \<le> Suc n" by simp
  have u: "uint (and_u8 (NOT (push_bit (Suc n) 255)) (or_u8 (push_bit n 1) b))
      = take_bit (Suc n) (uint b OR push_bit n 1)"
    by (simp only: uint_and_u8_mask [OF le] uint_or_u8 [OF c0 c])
  have "take_bit (Suc n) (uint b OR push_bit n 1) = take_bit (Suc n) (uint b) OR push_bit n 1"
    by (simp add: take_bit_push_bit)
  moreover have "push_bit n 1 \<le> take_bit (Suc n) (uint b) OR push_bit n (1::int)"
    by (subst or.commute) (rule or_greater_eq, simp)
  ultimately have "push_bit n 1 \<le> take_bit (Suc n) (uint b OR push_bit n 1)" by (simp only:)
  then show "2 ^ n \<le> uint (and_u8 (NOT (push_bit (Suc n) 255)) (or_u8 (push_bit n 1) b))"
    unfolding u by (simp add: push_bit_eq_mult)
qed

lemma uint_top_two:
  assumes "n < 7"
  shows "uint (and_u8 (NOT (push_bit (Suc (Suc n)) 255)) (or_u8 (push_bit n 3) b)) < 2 ^ Suc (Suc n)"
    and "3 * 2 ^ n \<le> uint (and_u8 (NOT (push_bit (Suc (Suc n)) 255)) (or_u8 (push_bit n 3) b))"
proof -
  show "uint (and_u8 (NOT (push_bit (Suc (Suc n)) 255)) (or_u8 (push_bit n 3) b)) < 2 ^ Suc (Suc n)"
    using uint_top_any [of "Suc (Suc n)"] by simp
  have "(2::int) ^ n \<le> 2 ^ 6" using assms by (intro power_increasing) simp_all
  then have c: "push_bit n (3::int) < 256" by (simp add: push_bit_eq_mult)
  have c0: "0 \<le> push_bit n (3::int)" by simp
  have le: "1 \<le> Suc (Suc n)" by simp
  have u: "uint (and_u8 (NOT (push_bit (Suc (Suc n)) 255)) (or_u8 (push_bit n 3) b))
      = take_bit (Suc (Suc n)) (uint b OR push_bit n 3)"
    by (simp only: uint_and_u8_mask [OF le] uint_or_u8 [OF c0 c])
  have t3: "take_bit 2 (3::int) = 3" by (simp add: take_bit_int_eq_self)
  have "take_bit (Suc (Suc n)) (push_bit n (3::int)) = push_bit n (take_bit 2 3)"
    by (simp only: take_bit_push_bit) simp
  then have "take_bit (Suc (Suc n)) (uint b OR push_bit n 3) = take_bit (Suc (Suc n)) (uint b) OR push_bit n 3"
    by (simp only: take_bit_or t3)
  moreover have "push_bit n 3 \<le> take_bit (Suc (Suc n)) (uint b) OR push_bit n (3::int)"
    by (subst or.commute) (rule or_greater_eq, simp)
  ultimately have "push_bit n 3 \<le> take_bit (Suc (Suc n)) (uint b OR push_bit n 3)" by (simp only:)
  then show "3 * 2 ^ n \<le> uint (and_u8 (NOT (push_bit (Suc (Suc n)) 255)) (or_u8 (push_bit n 3) b))"
    unfolding u by (simp add: push_bit_eq_mult)
qed

lemma uint_or_one:
  "uint (or_u8 1 b) = uint b OR 1"
  by (simp add: uint_or_u8)

lemma or_one_less: 
  assumes "1 \<le> m" "0 \<le> (x::int)" "x < 2 ^ m" shows "x OR 1 < 2 ^ m"
proof -
  have "(1::int) < 2 ^ m" using assms(1) by (metis one_less_numeral_iff one_less_power semiring_norm(76) not_one_le_zero not_gr_zero)
  then show ?thesis using assms by (intro OR_upper) simp_all
qed

subsection \<open>Big-endian values and buffer lengths\<close>

lemma BN_bin2bn_foldl:
  "foldl (\<lambda>acc b. acc * 256 + uint (b::u8)) a bs =
     a * 256 ^ length bs + foldl (\<lambda>acc b. acc * 256 + uint b) 0 bs"
proof (induction bs arbitrary: a)
  case Nil
  show ?case by simp
next
  case (Cons b bs)
  let ?f = "\<lambda>acc (b::u8). acc * 256 + uint b"
  have "foldl ?f a (b # bs) = (a * 256 + uint b) * 256 ^ length bs + foldl ?f 0 bs"
    using Cons.IH [of "a * 256 + uint b"] by simp
  moreover have "foldl ?f 0 (b # bs) = uint b * 256 ^ length bs + foldl ?f 0 bs"
    using Cons.IH [of "uint b"] by simp
  ultimately show ?case by (simp only: length_Cons power_Suc distrib_right)
qed

lemma BN_bin2bn_Cons: "BN_bin2bn (b # bs) = uint b * 256 ^ length bs + BN_bin2bn bs"
  using BN_bin2bn_foldl [of "uint b" bs] by (simp add: BN_bin2bn_def)

lemma BN_bin2bn_Nil: "BN_bin2bn [] = 0"
  by (simp add: BN_bin2bn_def)

lemma BN_bin2bn_bounds: "0 \<le> BN_bin2bn bs \<and> BN_bin2bn bs < 256 ^ length bs"
proof (induction bs)
  case Nil
  show ?case by (simp add: BN_bin2bn_Nil)
next
  case (Cons b bs)
  define X :: int where "X = 256 ^ length bs"
  have b: "0 \<le> uint b" "uint b \<le> 255" using uint_bounded [of b] by simp_all
  have X: "0 \<le> X" by (simp add: X_def)
  have m: "uint b * X \<le> 255 * X" using b X by (intro mult_right_mono)
  have m0: "0 \<le> uint b * X" using b X by simp
  have ih: "0 \<le> BN_bin2bn bs" "BN_bin2bn bs < X" using Cons by (simp_all add: X_def)
  have "0 \<le> uint b * X + BN_bin2bn bs \<and> uint b * X + BN_bin2bn bs < 256 * X"
    using m m0 ih by linarith
  then show ?case by (simp add: BN_bin2bn_Cons X_def)
qed

lemma length_fill_loop:
  "fill_loop kdf salt pass buflen out buf have c = (Inr buf', c') \<Longrightarrow>
   length out = 32 \<Longrightarrow> have \<le> buflen \<Longrightarrow> length buf = buflen \<Longrightarrow> length buf' = buflen"
proof (induction kdf salt pass buflen out buf "have" c rule: fill_loop.induct)
  case (1 kdf salt pass buflen out buf "have" c)
  show ?case
  proof (cases "have < buflen")
    case False
    with "1.prems" show ?thesis by (simp add: fill_loop_done)
  next
    case True
    show ?thesis
    proof (cases "block_of kdf salt pass c")
      case None
      with True "1.prems"(1) show ?thesis by (simp add: fill_loop_fail)
    next
      case (Some dk)
      let ?need = "min 32 (buflen - have)"
      have s: "fill_loop kdf salt pass buflen (write_out dk out)
                 (memcpy buf have (write_out dk out) ?need) (have + ?need) (c + 1) = (Inr buf', c')"
        using "1.prems"(1) fill_loop_step [OF True Some, of out buf] by simp
      have nd: "(if 32 < buflen - have then 32 else buflen - have) = ?need" by (simp add: min_def)
      show ?thesis
      proof (rule "1.IH" [OF True refl refl _ refl refl refl])
        show "kdf pass (c_str (snprintf_salt salt c)) 10000 32 = Some dk"
          using Some by (simp add: block_of_def)
        show "fill_loop kdf salt pass buflen (write_out dk out)
            (memcpy buf have (write_out dk out) (if 32 < buflen - have then 32 else buflen - have))
            (have + (if 32 < buflen - have then 32 else buflen - have)) (c + 1) = (Inr buf', c')"
          unfolding nd by (rule s)
        show "length (write_out dk out) = 32" using "1.prems"(2) by (rule length_write_out)
        show "have + (if 32 < buflen - have then 32 else buflen - have) \<le> buflen"
          using True by (cases "32 < buflen - have") auto
        show "length (memcpy buf have (write_out dk out) (if 32 < buflen - have then 32 else buflen - have)) = buflen"
          using True "1.prems" by (simp add: length_memcpy length_write_out)
      qed
    qed
  qed
qed

lemma length_bk_RAND_bytes:
  "bk_RAND_bytes kdf bk buflen c = (Inr buf, c') \<Longrightarrow> length buf = nat buflen"
  by (auto simp: bk_RAND_bytes_def split: if_splits dest: length_fill_loop)

subsection \<open>Shaping the buffer\<close>

lemma poke_0: "poke (b # rest) 0 f = Some (f b # rest)"
  by (simp add: poke_def)

lemma poke_1: "poke (b # b1 # rest) 1 f = Some (b # f b1 # rest)"
  by (simp add: poke_def)

lemma poke_last:
  "poke (h # rest) (int (length rest)) f =
     Some (if rest = [] then [f h] else h # rest[length rest - 1 := f (rest ! (length rest - 1))])"
  by (cases rest rule: rev_cases) (auto simp: poke_def nat_add_distrib nth_append)

lemma uint_or_one_ge: "uint b \<le> uint (or_u8 1 b)"
  by (simp add: uint_or_one or_greater_eq)

lemma shaped_bottom:
  assumes "shaped n m top_n buf"
  shows "\<exists>buf'. poke buf (int n - 1) (or_u8 1) = Some buf' \<and> shaped n m top_n buf'"
proof -
  from assms obtain h rest where hr: "buf = h # rest" "Suc (length rest) = n" "uint h < 2 ^ Suc m"
    and t0: "top_n = 0 \<longrightarrow> 2 ^ m \<le> uint h"
    and t2: "top_n > 0 \<and> m \<noteq> 0 \<longrightarrow> 3 * 2 ^ (m - 1) \<le> uint h"
    and t1: "top_n > 0 \<and> m = 0 \<longrightarrow> uint h = 1 \<and> (\<exists>b r. rest = b # r \<and> 128 \<le> uint b)"
    unfolding shaped_def by blast
  have idx: "int n - 1 = int (length rest)" using hr(2) by auto
  show ?thesis
  proof (cases "rest = []")
    case True
    have p: "poke buf (int n - 1) (or_u8 1) = Some [or_u8 1 h]"
      unfolding idx hr(1) poke_last using True by simp
    have lt: "uint (or_u8 1 h) < 2 ^ Suc m"
      unfolding uint_or_one by (rule or_one_less) (use hr(3) in simp_all)
    have ge: "uint h \<le> uint (or_u8 1 h)" by (rule uint_or_one_ge)
    have "shaped n m top_n [or_u8 1 h]"
      unfolding shaped_def using True hr(2) lt ge t0 t2 t1 by auto
    with p show ?thesis by blast
  next
    case False
    define k where "k = length rest - 1"
    define rest' where "rest' = rest[k := or_u8 1 (rest ! k)]"
    have p: "poke buf (int n - 1) (or_u8 1) = Some (h # rest')"
      unfolding idx hr(1) poke_last using False by (simp add: rest'_def k_def)
    have len: "length rest' = length rest" by (simp add: rest'_def)
    have hd: "\<And>b r. rest = b # r \<Longrightarrow> \<exists>b' r'. rest' = b' # r' \<and> uint b \<le> uint b'"
    proof -
      fix b r assume br: "rest = b # r"
      show "\<exists>b' r'. rest' = b' # r' \<and> uint b \<le> uint b'"
      proof (cases k)
        case 0
        then show ?thesis using br uint_or_one_ge [of b] by (simp add: rest'_def)
      next
        case (Suc j)
        then show ?thesis using br by (simp add: rest'_def)
      qed
    qed
    have "shaped n m top_n (h # rest')"
      unfolding shaped_def using hr(2,3) len t0 t2 t1 hd by fastforce
    with p show ?thesis by blast
  qed
qed


lemma and_u8_mask_one: "1 \<le> m \<Longrightarrow> uint (and_u8 (NOT (push_bit m 255)) 1) = 1"
  by (simp add: uint_and_u8_mask take_bit_int_eq_self)

lemma uint_or_u8_80: "128 \<le> uint (or_u8 0x80 b)"
proof -
  have "uint (or_u8 0x80 b) = uint b OR 128" by (simp add: uint_or_u8)
  also have "\<dots> = 128 OR uint b" by (rule or.commute)
  finally show ?thesis using or_greater_eq [of "uint b" 128] by simp
qed

lemma shape_shaped:
  assumes len: "length buf = nat bytes" and b1: "1 \<le> bytes"
    and bit: "0 \<le> bit_n" "bit_n < 8"
    and two: "top_n > 0 \<and> bit_n = 0 \<longrightarrow> 2 \<le> bytes"
  shows "\<exists>buf'. shape buf bytes bit_n (push_bit (nat (bit_n + 1)) 255) top_n bottom = Some buf'
           \<and> shaped (nat bytes) (nat bit_n) top_n buf'"
proof -
  define m where "m = nat bit_n"
  have m: "m < 8" "nat (bit_n + 1) = Suc m" using bit by (simp_all add: m_def)
  define mk where "mk = and_u8 (NOT (push_bit (nat (bit_n + 1)) 255))"
  define o1 where "o1 = or_u8 (push_bit (nat bit_n) 1)"
  define o3 where "o3 = or_u8 (push_bit (nat (bit_n - 1)) 3)"
  have mk_lt: "uint (mk b) < 2 ^ Suc m" for b
    unfolding mk_def m(2) by (rule uint_top_any) simp
  have mk_1: "uint (mk 1) = 1"
    unfolding mk_def m(2) by (rule and_u8_mask_one) simp
  have mk_o1: "2 ^ m \<le> uint (mk (o1 b))" for b
    unfolding mk_def o1_def m(2) m_def [symmetric] using m(1) by (rule uint_top_one(2))
  have mk_o3: "3 * 2 ^ (m - 1) \<le> uint (mk (o3 b))" if "m \<noteq> 0" for b
  proof -
    from that obtain j where j: "m = Suc j" by (cases m) auto
    have jm: "nat (bit_n - 1) = j" using j by (simp add: m_def)
    have j7: "j < 7" using j m(1) by simp
    show ?thesis
      unfolding mk_def o3_def m(2) jm unfolding j using uint_top_two(2) [OF j7, of b] by simp
  qed
  from len b1 obtain b0 rest where buf: "buf = b0 # rest" "Suc (length rest) = nat bytes"
    by (cases buf) auto
  have "\<exists>buf3. Option.bind
       (if top_n \<ge> 0 then
          (if top_n \<noteq> 0 then
             (if bit_n = 0 then
                Option.bind (poke buf 0 (\<lambda>_. 1)) (\<lambda>buf1. poke buf1 1 (or_u8 0x80))
              else poke buf 0 o3)
           else poke buf 0 o1)
        else Some buf)
       (\<lambda>buf2. poke buf2 0 mk) = Some buf3
       \<and> shaped (nat bytes) m top_n buf3"
  proof -
    consider (any) "top_n < 0" | (one) "top_n = 0" | (two0) "top_n > 0" "bit_n = 0"
      | (two) "top_n > 0" "bit_n \<noteq> 0" by linarith
    then show ?thesis
    proof cases
      case any
      then show ?thesis using buf mk_lt [of b0] by (simp add: poke_0 shaped_def)
    next
      case one
      then show ?thesis using buf mk_lt [of "o1 b0"] mk_o1 [of b0] by (simp add: poke_0 shaped_def)
    next
      case two0
      with two have "2 \<le> bytes" by simp
      with buf obtain b1 r where r: "rest = b1 # r" by (cases rest) auto
      have m0: "m = 0" using two0 by (simp add: m_def)
      show ?thesis using two0 buf r uint_or_u8_80 [of b1] mk_1
        by (simp add: m0 poke_0 poke_1 shaped_def)
    next
      case two
      then have mn: "m \<noteq> 0" using bit by (simp add: m_def)
      show ?thesis using two buf mk_lt [of "o3 b0"] mk_o3 [OF mn, of b0] mn
        by (simp add: poke_0 shaped_def)
    qed
  qed
  then obtain buf3 where b3: "Option.bind
       (if top_n \<ge> 0 then
          (if top_n \<noteq> 0 then
             (if bit_n = 0 then
                Option.bind (poke buf 0 (\<lambda>_. 1)) (\<lambda>buf1. poke buf1 1 (or_u8 0x80))
              else poke buf 0 o3)
           else poke buf 0 o1)
        else Some buf)
       (\<lambda>buf2. poke buf2 0 mk) = Some buf3"
    and sh: "shaped (nat bytes) m top_n buf3" by blast
  from shaped_bottom [OF sh] obtain buf4 where
    b4: "poke buf3 (int (nat bytes) - 1) (or_u8 1) = Some buf4" "shaped (nat bytes) m top_n buf4"
    by blast
  have ib: "int (nat bytes) = bytes" using b1 by simp
  have b4': "poke buf3 (bytes - 1) (or_u8 1) = Some buf4" using b4(1) unfolding ib .
  have "shape buf bytes bit_n (push_bit (nat (bit_n + 1)) 255) top_n bottom =
      Option.bind (Some buf3) (\<lambda>buf3. if bottom \<noteq> 0 then poke buf3 (bytes - 1) (or_u8 1) else Some buf3)"
    unfolding shape_def b3 [symmetric] mk_def o1_def o3_def by (simp only: Option.bind_assoc)
  then show ?thesis
    using sh b4(2) b4' by (cases "bottom = 0") (simp_all add: m_def)
qed

subsection \<open>The shaped integer\<close>

lemma num_bits_0: "num_bits 0 = 0"
  by (simp add: num_bits.simps)

lemma num_bits_eq: "2 ^ k \<le> n \<Longrightarrow> n < 2 ^ Suc k \<Longrightarrow> num_bits n = Suc k"
proof (induction k arbitrary: n)
  case 0
  then have "n = 1" by simp
  then show ?case by (simp add: num_bits.simps [of "Suc 0"] num_bits_0)
next
  case (Suc k)
  have n0: "n \<noteq> 0" using Suc.prems(1) by (cases "n = 0") simp_all
  have "2 ^ k \<le> n div 2" "n div 2 < 2 ^ Suc k" using Suc.prems by simp_all
  then have "num_bits (n div 2) = Suc k" by (rule Suc.IH)
  then show ?case using n0 by (simp add: num_bits.simps [of n])
qed

lemma bit_top: 
  assumes "2 ^ k \<le> (n::nat)" "n < 2 ^ Suc k" shows "bit n k"
proof -
  have "n div 2 ^ k = 1"
    using assms by (intro div_nat_eqI) simp_all
  then show ?thesis by (simp add: bit_iff_odd)
qed

lemma bit_second:
  assumes "3 * 2 ^ k \<le> (n::nat)" "n < 2 ^ Suc (Suc k)" shows "bit n k"
proof -
  have "n div 2 ^ k = 3"
    using assms by (intro div_nat_eqI) simp_all
  then show ?thesis by (simp add: bit_iff_odd)
qed

lemma pow256: "(256::int) ^ k = 2 ^ (8 * k)"
proof -
  have "(256::int) = 2 ^ 8" by simp
  then show ?thesis by (simp only: power_mult)
qed

lemma shaped_value:
  assumes "shaped n m top_n buf"
  shows "0 \<le> BN_bin2bn buf \<and> BN_bin2bn buf < 2 ^ (Suc m + 8 * (n - 1)) \<and>
         (top_n = 0 \<longrightarrow> 2 ^ (m + 8 * (n - 1)) \<le> BN_bin2bn buf) \<and>
         (top_n > 0 \<longrightarrow> 1 \<le> m + 8 * (n - 1) \<and> 3 * 2 ^ (m + 8 * (n - 1) - 1) \<le> BN_bin2bn buf)"
proof -
  from assms obtain h rest where hr: "buf = h # rest" "Suc (length rest) = n" "uint h < 2 ^ Suc m"
    and t0: "top_n = 0 \<longrightarrow> 2 ^ m \<le> uint h"
    and t2: "top_n > 0 \<and> m \<noteq> 0 \<longrightarrow> 3 * 2 ^ (m - 1) \<le> uint h"
    and t1: "top_n > 0 \<and> m = 0 \<longrightarrow> uint h = 1 \<and> (\<exists>b r. rest = b # r \<and> 128 \<le> uint b)"
    unfolding shaped_def by blast
  define e where "e = 8 * (n - 1)"
  define X :: int where "X = 2 ^ e"
  have len: "length rest = n - 1" using hr(2) by auto
  have X: "256 ^ length rest = X" by (simp add: len pow256 X_def e_def)
  have Xp: "0 < X" by (simp add: X_def)
  have v: "BN_bin2bn buf = uint h * X + BN_bin2bn rest" by (simp add: hr(1) BN_bin2bn_Cons X)
  have r: "0 \<le> BN_bin2bn rest" "BN_bin2bn rest < X" using BN_bin2bn_bounds [of rest] by (simp_all add: X)
  have h0: "0 \<le> uint h" by simp
  have pw: "(2::int) ^ (a + e) = 2 ^ a * X" for a by (simp add: X_def power_add)
  have hX: "0 \<le> uint h * X" using h0 Xp by simp
  have lo: "0 \<le> BN_bin2bn buf" using r hX unfolding v by linarith
  have "uint h + 1 \<le> 2 ^ Suc m" using hr(3) by simp
  then have "(uint h + 1) * X \<le> 2 ^ Suc m * X" using Xp by (intro mult_right_mono) simp_all
  then have "uint h * X + X \<le> 2 ^ Suc m * X" by (simp only: distrib_right mult_1)
  then have "BN_bin2bn buf < 2 ^ Suc m * X" using r unfolding v by linarith
  then have hi: "BN_bin2bn buf < 2 ^ (Suc m + e)" by (simp only: pw)
  have one: "2 ^ (m + e) \<le> BN_bin2bn buf" if "top_n = 0"
  proof -
    have "2 ^ m * X \<le> uint h * X" using t0 that Xp by (intro mult_right_mono) simp_all
    then have "2 ^ m * X \<le> BN_bin2bn buf" using r unfolding v by linarith
    then show ?thesis by (simp only: pw)
  qed
  have two: "1 \<le> m + e \<and> 3 * 2 ^ (m + e - 1) \<le> BN_bin2bn buf" if t: "top_n > 0"
  proof (cases "m = 0")
    case False
    then obtain j where j: "m = Suc j" by (cases m) auto
    have "3 * 2 ^ j * X \<le> uint h * X" using t2 t False j Xp by (intro mult_right_mono) simp_all
    then have "3 * 2 ^ j * X \<le> BN_bin2bn buf" using r unfolding v by linarith
    moreover have "(3::int) * 2 ^ (m + e - 1) = 3 * 2 ^ j * X" using pw [of j] by (simp add: j)
    ultimately show ?thesis using j by simp
  next
    case True
    with t1 t obtain b r' where b: "uint h = 1" "rest = b # r'" "128 \<le> uint b" by blast
    define Y :: int where "Y = 256 ^ length r'"
    have Yp: "0 < Y" by (simp add: Y_def)
    have n2: "n - 1 = Suc (length r')" using len b(2) by simp
    have XY: "X = 256 * Y" using X b(2) by (simp add: Y_def)
    have e8: "e = 8 + 8 * length r'" unfolding e_def n2 by simp
    have Y2: "Y = 2 ^ (8 * length r')" by (simp add: Y_def pow256)
    have vr: "BN_bin2bn rest = uint b * Y + BN_bin2bn r'" by (simp add: b(2) BN_bin2bn_Cons Y_def)
    have "128 * Y \<le> uint b * Y" using b(3) Yp by (intro mult_right_mono) simp_all
    moreover have "0 \<le> BN_bin2bn r'" using BN_bin2bn_bounds [of r'] by simp
    ultimately have "384 * Y \<le> BN_bin2bn buf" unfolding v vr b(1) XY by linarith
    moreover have "(3::int) * 2 ^ (m + e - 1) = 384 * Y"
      by (simp add: True e8 Y2 power_add)
    ultimately show ?thesis by (simp add: True e8)
  qed
  show ?thesis using lo hi one two by (simp add: e_def)
qed


lemma bits_split:
  assumes "1 \<le> (bits::int)"
  shows "nat bits = Suc (nat ((bits - 1) mod 8)) + 8 * (nat ((bits + 7) div 8) - 1)"
proof -
  define q where "q = (bits - 1) div 8"
  define r where "r = (bits - 1) mod 8"
  have d: "(bits + 7) div 8 = q + 1" by (simp add: q_def)
  have b: "bits = 8 * q + r + 1" by (simp add: q_def r_def)
  have q: "0 \<le> q" and r: "0 \<le> r" using assms by (simp_all add: q_def r_def)
  have "int (nat bits) = int (Suc (nat r) + 8 * (nat (q + 1) - 1))"
    using q r assms by (simp add: b)
  then have "nat bits = Suc (nat r) + 8 * (nat (q + 1) - 1)" by (simp only: int_int_eq)
  then show ?thesis by (simp only: d r_def)
qed

lemma bk_bnrand_reaches_shape:
  assumes "1 \<le> bits" "\<not> (bits = 1 \<and> top_n > 0)" "bits + 7 \<le> INT_MAX"
    and "bk_RAND_bytes kdf bk ((bits + 7) div 8) cnt = (Inr buf, cnt')"
  shows "\<exists>buf'. shape buf ((bits + 7) div 8) ((bits - 1) mod 8)
                   (push_bit (nat ((bits - 1) mod 8 + 1)) 255) top_n bottom = Some buf'
           \<and> shaped (nat ((bits + 7) div 8)) (nat ((bits - 1) mod 8)) top_n buf'
           \<and> bk_bnrand kdf bk bits top_n bottom cnt = (Inr (BN_bin2bn buf'), cnt')"
proof -
  let ?bytes = "(bits + 7) div 8" and ?bit = "(bits - 1) mod 8"
  have len: "length buf = nat ?bytes" using assms(4) by (rule length_bk_RAND_bytes)
  have b1: "1 \<le> ?bytes" using assms(1) by simp
  have two: "top_n > 0 \<and> ?bit = 0 \<longrightarrow> 2 \<le> ?bytes"
  proof
    assume a: "top_n > 0 \<and> ?bit = 0"
    with assms(2) have "bits \<noteq> 1" by auto
    moreover from a have "8 dvd bits - 1" by presburger
    ultimately have "9 \<le> bits" using assms(1) by presburger
    then show "2 \<le> ?bytes" by simp
  qed
  from shape_shaped [OF len b1 _ _ two, of bottom] obtain buf' where
    s: "shape buf ?bytes ?bit (push_bit (nat (?bit + 1)) 255) top_n bottom = Some buf'"
      "shaped (nat ?bytes) (nat ?bit) top_n buf'"
    by auto
  have "bk_bnrand kdf bk bits top_n bottom cnt = (Inr (BN_bin2bn buf'), cnt')"
    using assms b1 s(1) by (simp add: bk_bnrand_def Let_def)
  with s show ?thesis by blast
qed

lemma bk_bnrand_Inr:
  assumes "1 \<le> bits" and "bk_bnrand kdf bk bits top_n bottom cnt = (Inr v, cnt')"
  shows "\<not> (bits = 1 \<and> top_n > 0) \<and>
         (\<exists>buf'. v = BN_bin2bn buf' \<and> shaped (nat ((bits + 7) div 8)) (nat ((bits - 1) mod 8)) top_n buf')"
proof -
  have n1: "\<not> (bits = 1 \<and> top_n > 0)" and ov: "bits + 7 \<le> INT_MAX"
    using assms by (auto simp: bk_bnrand_def split: if_splits)
  obtain res c where rb: "bk_RAND_bytes kdf bk ((bits + 7) div 8) cnt = (res, c)"
    by (cases "bk_RAND_bytes kdf bk ((bits + 7) div 8) cnt")
  show ?thesis
  proof (cases res)
    case (Inl e)
    then have "bk_bnrand kdf bk bits top_n bottom cnt = (Inl e, c)"
      using assms(1) n1 ov rb by (auto simp: bk_bnrand_def Let_def)
    with assms(2) show ?thesis by simp
  next
    case (Inr buf)
    from bk_bnrand_reaches_shape [OF assms(1) n1 ov rb [unfolded Inr], of bottom]
    show ?thesis using assms(2) n1 by auto
  qed
qed


lemma bk_bnrand_value:
  assumes "1 \<le> bits" and "bk_bnrand kdf bk bits top_n bottom cnt = (Inr v, cnt')"
  shows "0 \<le> v \<and> v < 2 ^ nat bits \<and>
         (top_n = 0 \<longrightarrow> 2 ^ (nat bits - 1) \<le> v) \<and>
         (top_n > 0 \<longrightarrow> 2 \<le> bits \<and> 3 * 2 ^ (nat bits - 2) \<le> v)"
proof -
  from bk_bnrand_Inr [OF assms] obtain buf' where
    b: "v = BN_bin2bn buf'" "shaped (nat ((bits + 7) div 8)) (nat ((bits - 1) mod 8)) top_n buf'"
    by blast
  define m where "m = nat ((bits - 1) mod 8)"
  define n where "n = nat ((bits + 7) div 8)"
  have sp: "nat bits = Suc m + 8 * (n - 1)"
    using bits_split [OF assms(1)] by (simp only: m_def n_def)
  have e1: "m + 8 * (n - 1) = nat bits - 1" using sp by simp
  from shaped_value [OF b(2) [folded m_def n_def]]
  have "0 \<le> v \<and> v < 2 ^ nat bits \<and>
         (top_n = 0 \<longrightarrow> 2 ^ (nat bits - 1) \<le> v) \<and>
         (top_n > 0 \<longrightarrow> 1 \<le> nat bits - 1 \<and> 3 * 2 ^ (nat bits - 1 - 1) \<le> v)"
    unfolding b(1) [symmetric] sp [symmetric] e1 .
  moreover have "nat bits - 1 - 1 = nat bits - 2" by simp
  moreover have "1 \<le> nat bits - 1 \<longrightarrow> 2 \<le> bits" by linarith
  ultimately show ?thesis by (simp only:) blast
qed

lemma BN_num_bits_eq:
  assumes "2 ^ k \<le> (v::int)" "v < 2 ^ Suc k"
  shows "BN_num_bits v = int (Suc k)" "BN_is_bit_set v (int k)"
proof -
  have v0: "0 \<le> v" using assms(1) by (smt (verit) zero_le_power)
  have a: "2 ^ k \<le> nat v" using assms(1) v0 by (simp add: le_nat_iff)
  have b: "nat v < 2 ^ Suc k" using assms(2) v0 by (simp add: nat_less_iff)
  show "BN_num_bits v = int (Suc k)"
    using num_bits_eq [OF a b] v0 by (simp add: BN_num_bits_def)
  show "BN_is_bit_set v (int k)"
    using bit_top [OF a b] v0 by (simp add: BN_is_bit_set_def)
qed

lemma BN_is_bit_set_second:
  assumes "3 * 2 ^ k \<le> (v::int)" "v < 2 ^ Suc (Suc k)"
  shows "BN_is_bit_set v (int k)"
proof -
  have v0: "0 \<le> v" using assms(1) by (smt (verit) zero_le_power)
  have "int (3 * 2 ^ k) \<le> v" using assms(1) by simp
  then have a: "3 * 2 ^ k \<le> nat v" using v0 by (simp only: le_nat_iff)
  have b: "nat v < 2 ^ Suc (Suc k)" using assms(2) v0 by (simp add: nat_less_iff)
  show ?thesis using bit_second [OF a b] v0 by (simp add: BN_is_bit_set_def)
qed

text \<open>
  C3. For \<open>bits \<ge> 1\<close>, a value that \<^verbatim>\<open>bk_bnrand\<close> returns is nonnegative and below
  \<open>2 ^ bits\<close>. When the top bit is asked for (\<open>top = 0\<close>) its bit length is exactly
  \<open>bits\<close> and bit \<open>bits - 1\<close> is set; when the two top bits are asked for
  (\<open>top > 0\<close>), then \<open>bits \<ge> 2\<close>, the bit length is exactly \<open>bits\<close> and the bits
  \<open>bits - 1\<close> and \<open>bits - 2\<close> are set.
\<close>

theorem bk_bnrand_bit_length:
  assumes "1 \<le> bits" and "bk_bnrand kdf bk bits top_n bottom cnt = (Inr v, cnt')"
  shows "0 \<le> v \<and> v < 2 ^ nat bits \<and>
         (top_n = 0 \<longrightarrow> BN_num_bits v = bits \<and> BN_is_bit_set v (bits - 1)) \<and>
         (top_n > 0 \<longrightarrow> 2 \<le> bits \<and> BN_num_bits v = bits \<and>
            BN_is_bit_set v (bits - 1) \<and> BN_is_bit_set v (bits - 2))"
proof -
  note val = bk_bnrand_value [OF assms]
  obtain k where k: "nat bits = Suc k" using assms(1) by (cases "nat bits") auto
  have ik: "int (Suc k) = bits" "int k = bits - 1" using k assms(1) by linarith+
  have hi: "v < 2 ^ Suc k" using val k by simp
  have one: "BN_num_bits v = bits \<and> BN_is_bit_set v (bits - 1)" if "2 ^ k \<le> v"
    using BN_num_bits_eq [OF that hi] by (simp only: ik)
  have t0: "top_n = 0 \<longrightarrow> BN_num_bits v = bits \<and> BN_is_bit_set v (bits - 1)"
    using val one by (simp add: k)
  have t2: "top_n > 0 \<longrightarrow> 2 \<le> bits \<and> BN_num_bits v = bits \<and>
            BN_is_bit_set v (bits - 1) \<and> BN_is_bit_set v (bits - 2)"
  proof
    assume t: "top_n > 0"
    with val have b2: "2 \<le> bits" and lo: "3 * 2 ^ (nat bits - 2) \<le> v" by simp_all
    obtain j where j: "k = Suc j" using b2 k by (cases k) auto
    have ij: "int j = bits - 2" using ik j by linarith
    have lo': "3 * 2 ^ j \<le> v" using lo k j by simp
    have "(2::int) ^ k \<le> 3 * 2 ^ j" by (simp add: j)
    then have "2 ^ k \<le> v" using lo' by linarith
    with one have "BN_num_bits v = bits \<and> BN_is_bit_set v (bits - 1)" .
    moreover have "BN_is_bit_set v (bits - 2)"
      using BN_is_bit_set_second [OF lo' hi [unfolded j]] by (simp only: ij)
    ultimately show "2 \<le> bits \<and> BN_num_bits v = bits \<and>
            BN_is_bit_set v (bits - 1) \<and> BN_is_bit_set v (bits - 2)"
      using b2 by simp
  qed
  show ?thesis using val t0 t2 by simp
qed



text \<open>
  C3 on nine bits with the two top bits asked for: the branch that writes \<open>buf[1]\<close>.
\<close>

theorem bk_bnrand_bit_length_witness:
  "bk_bnrand kdf_sample bk0 9 1 0 0 = (Inr 464, 1) \<and> (464 :: int) < 2 ^ nat 9 \<and>
   BN_num_bits 464 = 9 \<and> BN_is_bit_set 464 (9 - 1) \<and> BN_is_bit_set 464 (9 - 2)"
proof -
  have h1: "1 \<le> (9 :: int)" by simp
  have h2: "bk_bnrand kdf_sample bk0 9 1 0 0 = (Inr 464, 1)" by code_simp
  show ?thesis using bk_bnrand_bit_length [OF h1 h2] h2 by simp
qed

lemma fill_loop_error:
  "fill_loop kdf salt pass L out buf have c = (Inl e, c') \<Longrightarrow> e = DerivationFailure"
proof (induction kdf salt pass L out buf "have" c rule: fill_loop.induct)
  case (1 kdf salt pass buflen out buf "have" c)
  show ?case
  proof (cases "have < buflen")
    case False
    with "1.prems" show ?thesis by (simp add: fill_loop_done)
  next
    case True
    show ?thesis
    proof (cases "block_of kdf salt pass c")
      case None
      with True "1.prems" show ?thesis by (simp add: fill_loop_fail)
    next
      case (Some dk)
      have nd: "(if 32 < buflen - have then 32 else buflen - have) = min 32 (buflen - have)"
        by (simp add: min_def)
      show ?thesis
      proof (rule "1.IH" [OF True refl refl _ refl refl refl])
        show "kdf pass (c_str (snprintf_salt salt c)) 10000 32 = Some dk"
          using Some by (simp add: block_of_def)
        show "fill_loop kdf salt pass buflen (write_out dk out)
            (memcpy buf have (write_out dk out) (if 32 < buflen - have then 32 else buflen - have))
            (have + (if 32 < buflen - have then 32 else buflen - have)) (c + 1) = (Inl e, c')"
          unfolding nd using "1.prems" fill_loop_step [OF True Some, of out buf] by simp
      qed
    qed
  qed
qed

lemma bk_RAND_bytes_error:
  "bk_RAND_bytes kdf bk buflen c = (Inl e, c') \<Longrightarrow>
     e = Unsupported \<or> e = NegativeLength \<or> e = DerivationFailure"
  by (auto simp: bk_RAND_bytes_def split: if_splits dest: fill_loop_error)

text \<open>
  C5 (amended). With \<open>bits = 1\<close>, \<^verbatim>\<open>bk_bnrand\<close> refuses the request for two top bits
  (\<open>top > 0\<close>) and leaves the counter alone. The request for the top bit (\<open>top = 0\<close>) is
  not refused: when the keystream delivers its byte the result is the value 1, and
  otherwise the failure is the keystream's with the counter it left, never
  \<open>InvalidShapeRequest\<close>.
\<close>

theorem bk_bnrand_one_bit:
  "(top_n > 0 \<longrightarrow> bk_bnrand kdf bk 1 top_n bottom cnt = (Inl InvalidShapeRequest, cnt)) \<and>
   (bk_RAND_bytes kdf bk 1 cnt = (Inr buf, cnt') \<longrightarrow>
      bk_bnrand kdf bk 1 0 bottom cnt = (Inr 1, cnt')) \<and>
   fst (bk_bnrand kdf bk 1 0 bottom cnt) \<noteq> Inl InvalidShapeRequest \<and>
   (bk_RAND_bytes kdf bk 1 cnt = (Inl e, cnt') \<longrightarrow>
      bk_bnrand kdf bk 1 0 bottom cnt = (Inl e, cnt'))"
proof (intro conjI impI)
  assume "bk_RAND_bytes kdf bk 1 cnt = (Inl e, cnt')"
  then show "bk_bnrand kdf bk 1 0 bottom cnt = (Inl e, cnt')"
    by (simp add: bk_bnrand_def INT_MAX_def)
next
  assume "top_n > 0"
  then show "bk_bnrand kdf bk 1 top_n bottom cnt = (Inl InvalidShapeRequest, cnt)"
    by (simp add: bk_bnrand_def)
next
  assume rb: "bk_RAND_bytes kdf bk 1 cnt = (Inr buf, cnt')"
  have "\<exists>buf'. bk_bnrand kdf bk 1 0 bottom cnt = (Inr (BN_bin2bn buf'), cnt')"
    using bk_bnrand_reaches_shape [of 1 0 kdf bk cnt buf cnt' bottom] rb
    by (auto simp: INT_MAX_def)
  then obtain v where v: "bk_bnrand kdf bk 1 0 bottom cnt = (Inr v, cnt')" by blast
  from bk_bnrand_value [OF _ v] have "v = 1" by simp
  with v show "bk_bnrand kdf bk 1 0 bottom cnt = (Inr 1, cnt')" by simp
next
  obtain res c where rb: "bk_RAND_bytes kdf bk 1 cnt = (res, c)"
    by (cases "bk_RAND_bytes kdf bk 1 cnt")
  have ne: "res \<noteq> Inl InvalidShapeRequest"
    using bk_RAND_bytes_error [of kdf bk 1 cnt InvalidShapeRequest c] rb by auto
  show "fst (bk_bnrand kdf bk 1 0 bottom cnt) \<noteq> Inl InvalidShapeRequest"
  proof (cases res)
    case (Inl e)
    then show ?thesis using rb ne by (simp add: bk_bnrand_def INT_MAX_def)
  next
    case (Inr buf)
    have "\<exists>buf'. bk_bnrand kdf bk 1 0 bottom cnt = (Inr (BN_bin2bn buf'), c)"
      using bk_bnrand_reaches_shape [of 1 0 kdf bk cnt buf c bottom] rb Inr
      by (auto simp: INT_MAX_def)
    then show ?thesis by auto
  qed
qed

text \<open>
  C5 as stated fails: line 102 tests \<^verbatim>\<open>top > 0\<close>, so one bit with the top bit asked for
  (\<open>top = 0\<close>) returns the value 1.
\<close>

theorem bk_bnrand_one_bit_counterexample:
  "bk_bnrand kdf_sample bk0 1 0 0 0 = (Inr 1, 1)"
  by code_simp

text \<open>
  The amended C5 on the sample brainkey.
\<close>

theorem bk_bnrand_one_bit_witness:
  "bk_bnrand kdf_sample bk0 1 1 1 0 = (Inl InvalidShapeRequest, 0) \<and>
   bk_RAND_bytes kdf_sample bk0 1 0 = (Inr [79], 1) \<and>
   bk_bnrand kdf_sample bk0 1 0 1 0 = (Inr 1, 1)"
proof -
  have rb: "bk_RAND_bytes kdf_sample bk0 1 0 = (Inr [79], 1)" by code_simp
  show ?thesis
    using bk_bnrand_one_bit [of 1 kdf_sample bk0 1 0 "[79]" 1] rb by simp
qed

text \<open>
  C9. \<^verbatim>\<open>bk_bnrand\<close> never indexes outside its buffer. Where the two top bits are asked for
  and the top bit index is 0, the request \<open>bits = 1\<close> has been refused, so \<open>bits \<ge> 9\<close>
  and the buffer has at least two bytes. On a buffer of \<open>\<lceil>bits / 8\<rceil>\<close> bytes the shaping
  step always yields a buffer.
\<close>

theorem shape_in_bounds:
  "fst (bk_bnrand kdf bk bits top_n bottom cnt) \<noteq> Inl BufferOverrun \<and>
   (1 \<le> bits \<and> \<not> (bits = 1 \<and> top_n > 0) \<and> top_n > 0 \<and> (bits - 1) mod 8 = 0 \<longrightarrow>
      9 \<le> bits \<and> 2 \<le> (bits + 7) div 8) \<and>
   (1 \<le> bits \<and> \<not> (bits = 1 \<and> top_n > 0) \<and> length buf = nat ((bits + 7) div 8) \<longrightarrow>
      shape buf ((bits + 7) div 8) ((bits - 1) mod 8)
        (push_bit (nat ((bits - 1) mod 8 + 1)) 255) top_n bottom \<noteq> None)"
proof -
  let ?bytes = "(bits + 7) div 8" and ?bit = "(bits - 1) mod 8"
  have two: "9 \<le> bits \<and> 2 \<le> ?bytes"
    if a: "1 \<le> bits \<and> \<not> (bits = 1 \<and> top_n > 0) \<and> top_n > 0 \<and> ?bit = 0"
  proof -
    from a have "bits \<noteq> 1" by auto
    moreover from a have "8 dvd bits - 1" by presburger
    ultimately have "9 \<le> bits" using a by presburger
    then show ?thesis by simp
  qed
  have total: "shape buf ?bytes ?bit (push_bit (nat (?bit + 1)) 255) top_n bottom \<noteq> None"
    if a: "1 \<le> bits \<and> \<not> (bits = 1 \<and> top_n > 0) \<and> length buf = nat ?bytes"
  proof -
    from a have "1 \<le> bits" by simp
    then have b1: "1 \<le> ?bytes" by simp
    have t: "top_n > 0 \<and> ?bit = 0 \<longrightarrow> 2 \<le> ?bytes"
    proof
      assume "top_n > 0 \<and> ?bit = 0"
      with a have "1 \<le> bits \<and> \<not> (bits = 1 \<and> top_n > 0) \<and> top_n > 0 \<and> ?bit = 0" by simp
      then have "9 \<le> bits \<and> 2 \<le> ?bytes" by (rule two)
      then show "2 \<le> ?bytes" ..
    qed
    from shape_shaped [OF _ b1 _ _ t, of buf bottom] a show ?thesis by auto
  qed
  have "fst (bk_bnrand kdf bk bits top_n bottom cnt) \<noteq> Inl BufferOverrun"
  proof (cases "1 \<le> bits \<and> \<not> (bits = 1 \<and> top_n > 0) \<and> bits + 7 \<le> INT_MAX")
    case False
    then show ?thesis by (auto simp: bk_bnrand_def)
  next
    case True
    obtain res c where rb: "bk_RAND_bytes kdf bk ?bytes cnt = (res, c)"
      by (cases "bk_RAND_bytes kdf bk ?bytes cnt")
    show ?thesis
    proof (cases res)
      case (Inl e)
      have "e \<noteq> BufferOverrun"
        using bk_RAND_bytes_error [of kdf bk ?bytes cnt e c] rb Inl by auto
      then show ?thesis using True rb Inl by (auto simp: bk_bnrand_def Let_def)
    next
      case (Inr b)
      from bk_bnrand_reaches_shape [of bits top_n kdf bk cnt b c bottom] True rb Inr
      show ?thesis by auto
    qed
  qed
  with two total show ?thesis by blast
qed

text \<open>
  C9 on nine bits with the two top bits asked for.
\<close>

theorem shape_in_bounds_witness:
  "fst (bk_bnrand kdf_sample bk0 9 1 0 0) \<noteq> Inl BufferOverrun \<and>
   (9 :: int) \<le> 9 \<and> (2 :: int) \<le> (9 + 7) div 8 \<and>
   shape [7, 9] ((9 + 7) div 8) ((9 - 1) mod 8) (push_bit (nat ((9 - 1) mod 8 + 1)) 255) 1 0 \<noteq> None"
  using shape_in_bounds [of kdf_sample bk0 9 1 0 0 "[7, 9]"] by simp

subsection \<open>The range sampler\<close>

lemma range_loop1_reject:
  "\<not> top_zeros rng \<Longrightarrow> range_loop1 kdf bk rng (BN_num_bits rng) count c = reject_loop kdf bk rng count c"
proof (induction kdf bk rng count c rule: reject_loop.induct)
  case (1 kdf bk rng count c)
  show ?case
    apply (subst range_loop1.simps)
    apply (subst reject_loop.simps)
    using 1 by (auto simp: draw_bits_def candidate_def split: prod.splits sum.splits)
qed

lemma range_loop3_reject:
  "top_zeros rng \<Longrightarrow> range_loop3 kdf bk rng (BN_num_bits rng) count c = reject_loop kdf bk rng count c"
proof (induction kdf bk rng count c rule: reject_loop.induct)
  case (1 kdf bk rng count c)
  show ?case
    apply (subst range_loop3.simps)
    apply (subst reject_loop.simps)
    using 1 by (auto simp: draw_bits_def candidate_def Let_def split: prod.splits sum.splits)
qed

lemma bk_bnrand_range_reject:
  assumes "0 < rng" "BN_num_bits rng \<noteq> 1"
  shows "bk_bnrand_range kdf bk rng c = reject_loop kdf bk rng 100 c"
  using assms
  by (auto simp: bk_bnrand_range_def Let_def range_loop1_reject range_loop3_reject top_zeros_def)

lemma BN_num_bits_pos: "0 < rng \<Longrightarrow> 1 \<le> BN_num_bits rng"
  by (simp add: BN_num_bits_def num_bits.simps [of "nat rng"])

lemma draw_bits_pos: "0 < rng \<Longrightarrow> 1 \<le> draw_bits rng"
  using BN_num_bits_pos [of rng] by (simp add: draw_bits_def)

lemma sub_twice_nonneg: "0 \<le> r \<Longrightarrow> 0 \<le> sub_twice rng r"
  by (simp add: sub_twice_def Let_def)

lemma candidate_nonneg: "0 \<le> r \<Longrightarrow> 0 \<le> candidate rng r"
  by (simp add: candidate_def sub_twice_nonneg)

lemma reject_loop_sound:
  "reject_loop kdf bk rng count c = (Inr r, c') \<Longrightarrow> 0 < rng \<Longrightarrow> 0 \<le> r \<and> r < rng"
proof (induction kdf bk rng count c rule: reject_loop.induct)
  case (1 kdf bk rng count c)
  obtain res c1 where d: "bk_bnrand kdf bk (draw_bits rng) bk_BN_RAND_TOP_ANY bk_BN_RAND_BOTTOM_ANY c = (res, c1)"
    by (cases "bk_bnrand kdf bk (draw_bits rng) bk_BN_RAND_TOP_ANY bk_BN_RAND_BOTTOM_ANY c")
  show ?case
  proof (cases res)
    case (Inl e)
    with d "1.prems"(1) show ?thesis by (simp add: reject_loop.simps [of _ _ _ count c])
  next
    case (Inr x)
    have x0: "0 \<le> x" using bk_bnrand_value [OF draw_bits_pos [OF "1.prems"(2)] d [unfolded Inr]] by simp
    have u: "reject_loop kdf bk rng count c =
        (if count - 1 = 0 then (Inl SamplingExhausted, c1)
         else if candidate rng x \<ge> rng then reject_loop kdf bk rng (count - 1) c1
         else (Inr (candidate rng x), c1))"
      using d Inr by (simp add: reject_loop.simps [of _ _ _ count c])
    show ?thesis
    proof (cases "count - 1 = 0")
      case True
      with u "1.prems"(1) show ?thesis by simp
    next
      case False
      show ?thesis
      proof (cases "candidate rng x \<ge> rng")
        case True
        with u False "1.prems"(1) have "reject_loop kdf bk rng (count - 1) c1 = (Inr r, c')" by simp
        then show ?thesis
          using "1.IH" [OF d [unfolded Inr, symmetric] refl False True] "1.prems"(2) by simp
      next
        case c: False
        with u False "1.prems"(1) have "r = candidate rng x" by simp
        with c candidate_nonneg [OF x0, of rng] show ?thesis by simp
      qed
    qed
  qed
qed


lemma bk_bnrand_range_Inr:
  "bk_bnrand_range kdf bk rng c = (Inr r, c') \<Longrightarrow> 0 < rng \<and> 0 \<le> r \<and> r < rng"
proof -
  assume s: "bk_bnrand_range kdf bk rng c = (Inr r, c')"
  have pos: "0 < rng" using s by (cases "rng < 0 \<or> rng = 0") (auto simp: bk_bnrand_range_def)
  show ?thesis
  proof (cases "BN_num_bits rng = 1")
    case True
    then have "r = 0" using s pos by (simp add: bk_bnrand_range_def)
    with pos show ?thesis by simp
  next
    case False
    then have "reject_loop kdf bk rng 100 c = (Inr r, c')"
      using s pos by (simp add: bk_bnrand_range_reject)
    from reject_loop_sound [OF this pos] pos show ?thesis by simp
  qed
qed

text \<open>
  C2. \<^verbatim>\<open>bk_bnrand_range\<close> fails with \<open>InvalidRange\<close> on a range \<open>\<le> 0\<close>, so it succeeds
  only on a positive range; a value it returns is at least 0 and below the range; and on
  the range 1 it returns 0 without a draw.
\<close>

theorem bk_bnrand_range_sound:
  "(rng \<le> 0 \<longrightarrow> bk_bnrand_range kdf bk rng cnt = (Inl InvalidRange, cnt)) \<and>
   (bk_bnrand_range kdf bk rng cnt = (Inr r, cnt') \<longrightarrow> 0 < rng \<and> 0 \<le> r \<and> r < rng) \<and>
   bk_bnrand_range kdf bk 1 cnt = (Inr 0, cnt)"
proof -
  have a: "rng \<le> 0 \<longrightarrow> bk_bnrand_range kdf bk rng cnt = (Inl InvalidRange, cnt)"
    by (auto simp: bk_bnrand_range_def)
  have b: "bk_bnrand_range kdf bk rng cnt = (Inr r, cnt') \<longrightarrow> 0 < rng \<and> 0 \<le> r \<and> r < rng"
    by (intro impI) (rule bk_bnrand_range_Inr)
  have "BN_num_bits 1 = 1" by (simp add: BN_num_bits_def num_bits.simps [of "Suc 0"] num_bits_0)
  then have c: "bk_bnrand_range kdf bk 1 cnt = (Inr 0, cnt)"
    by (simp add: bk_bnrand_range_def)
  from a b c show ?thesis by blast
qed

text \<open>
  C2 on the range 8: the draw of five bits gives 15, one subtraction gives 7. On the
  range 0 the call fails.
\<close>

theorem bk_bnrand_range_sound_witness:
  "bk_bnrand_range kdf_sample bk0 8 0 = (Inr 7, 1) \<and> (0 :: int) < 8 \<and> (7 :: int) < 8 \<and>
   bk_bnrand_range kdf_sample bk0 0 0 = (Inl InvalidRange, 0)"
proof -
  have d: "bk_bnrand kdf_sample bk0 5 (- 1) 0 0 = (Inr 15, 1)" by code_simp
  have n: "BN_num_bits 8 = 4" "\<not> BN_is_bit_set 8 2" "\<not> BN_is_bit_set 8 1" by code_simp+
  have s: "bk_bnrand_range kdf_sample bk0 8 0 = (Inr 7, 1)"
    by (simp add: bk_bnrand_range_def n range_loop3.simps [of _ _ _ _ 100]
        bk_BN_RAND_TOP_ANY_def bk_BN_RAND_BOTTOM_ANY_def d sub_twice_def)
  show ?thesis
    using bk_bnrand_range_sound [of 8 kdf_sample bk0 0 7 1] bk_bnrand_range_sound [of 0 kdf_sample bk0 0] s
    by simp
qed

subsection \<open>The attempts of the range sampler\<close>

lemma bk_bnrand_error:
  "bk_bnrand kdf bk bits top_n bottom c = (Inl e, c') \<Longrightarrow> e \<noteq> SamplingExhausted"
proof
  assume a: "bk_bnrand kdf bk bits top_n bottom c = (Inl e, c')" and e: "e = SamplingExhausted"
  show False
  proof (cases "1 \<le> bits \<and> \<not> (bits = 1 \<and> top_n > 0) \<and> bits + 7 \<le> INT_MAX")
    case False
    with a e show False by (auto simp: bk_bnrand_def split: if_splits)
  next
    case True
    obtain res c1 where rb: "bk_RAND_bytes kdf bk ((bits + 7) div 8) c = (res, c1)"
      by (cases "bk_RAND_bytes kdf bk ((bits + 7) div 8) c")
    show False
    proof (cases res)
      case (Inl x)
      have "x \<noteq> SamplingExhausted"
        using bk_RAND_bytes_error [of kdf bk "(bits + 7) div 8" c x c1] rb Inl by auto
      moreover have "bk_bnrand kdf bk bits top_n bottom c = (Inl x, c1)"
        using True rb Inl by (auto simp: bk_bnrand_def Let_def)
      ultimately show False using a e by simp
    next
      case (Inr b)
      from bk_bnrand_reaches_shape [of bits top_n kdf bk c b c1 bottom] True rb Inr a
      show False by auto
    qed
  qed
qed

lemma reject_loop_Inl:
  "bk_bnrand kdf bk (draw_bits rng) bk_BN_RAND_TOP_ANY bk_BN_RAND_BOTTOM_ANY c = (Inl e, c1) \<Longrightarrow>
   reject_loop kdf bk rng count c = (Inl e, c1)"
  by (simp add: reject_loop.simps [of _ _ _ count c])

lemma reject_loop_Inr:
  "bk_bnrand kdf bk (draw_bits rng) bk_BN_RAND_TOP_ANY bk_BN_RAND_BOTTOM_ANY c = (Inr x, c1) \<Longrightarrow>
   reject_loop kdf bk rng count c =
     (if count - 1 = 0 then (Inl SamplingExhausted, c1)
      else if candidate rng x \<ge> rng then reject_loop kdf bk rng (count - 1) c1
      else (Inr (candidate rng x), c1))"
  by (simp add: reject_loop.simps [of _ _ _ count c])

lemma nth_draw_Inl:
  "bk_bnrand kdf bk (draw_bits rng) bk_BN_RAND_TOP_ANY bk_BN_RAND_BOTTOM_ANY c = (Inl e, c1) \<Longrightarrow>
   nth_draw kdf bk rng c k = (Inl e, c1)"
  by (cases k) simp_all

lemma nth_draw_Inr_0:
  "bk_bnrand kdf bk (draw_bits rng) bk_BN_RAND_TOP_ANY bk_BN_RAND_BOTTOM_ANY c = (Inr x, c1) \<Longrightarrow>
   nth_draw kdf bk rng c 0 = (Inr (candidate rng x), c1)"
  by simp

lemma nth_draw_Inr_Suc:
  "bk_bnrand kdf bk (draw_bits rng) bk_BN_RAND_TOP_ANY bk_BN_RAND_BOTTOM_ANY c = (Inr x, c1) \<Longrightarrow>
   nth_draw kdf bk rng c (Suc k) = nth_draw kdf bk rng c1 k"
  by simp

text \<open>What a call of the loop with \<open>Suc m\<close> attempts left does, in terms of its draws.\<close>

lemma reject_loop_char:
  "reject_loop kdf bk rng (Suc m) c =
     (if \<forall>i<m. rejected kdf bk rng c i
      then (case nth_draw kdf bk rng c m of
              (Inl e, c') \<Rightarrow> (Inl e, c')
            | (Inr r, c') \<Rightarrow> (Inl SamplingExhausted, c'))
      else nth_draw kdf bk rng c (LEAST i. \<not> rejected kdf bk rng c i))"
proof (induction m arbitrary: c)
  case 0
  obtain res c1 where d: "bk_bnrand kdf bk (draw_bits rng) bk_BN_RAND_TOP_ANY bk_BN_RAND_BOTTOM_ANY c = (res, c1)"
    by (cases "bk_bnrand kdf bk (draw_bits rng) bk_BN_RAND_TOP_ANY bk_BN_RAND_BOTTOM_ANY c")
  show ?case
  proof (cases res)
    case (Inl e)
    with d show ?thesis by (simp add: reject_loop_Inl)
  next
    case (Inr x)
    with d show ?thesis by (simp add: reject_loop_Inr)
  qed
next
  case (Suc m)
  obtain res c1 where d: "bk_bnrand kdf bk (draw_bits rng) bk_BN_RAND_TOP_ANY bk_BN_RAND_BOTTOM_ANY c = (res, c1)"
    by (cases "bk_bnrand kdf bk (draw_bits rng) bk_BN_RAND_TOP_ANY bk_BN_RAND_BOTTOM_ANY c")
  show ?case
  proof (cases res)
    case (Inl e)
    have n0: "\<not> rejected kdf bk rng c 0"
      using d Inl by (simp add: rejected_def)
    then have l: "(LEAST i. \<not> rejected kdf bk rng c i) = 0" by (simp add: Least_equality)
    have nall: "\<not> (\<forall>i<Suc m. rejected kdf bk rng c i)" using n0 by auto
    show ?thesis unfolding if_not_P [OF nall] l using d Inl by (simp add: reject_loop_Inl)
  next
    case (Inr x)
    note dx = d [unfolded Inr]
    have sh: "rejected kdf bk rng c (Suc i) = rejected kdf bk rng c1 i" for i
      using dx by (simp add: rejected_def)
    have r0: "rejected kdf bk rng c 0 \<longleftrightarrow> rng \<le> candidate rng x"
      using dx by (simp add: rejected_def)
    have u: "reject_loop kdf bk rng (Suc (Suc m)) c =
       (if candidate rng x \<ge> rng then reject_loop kdf bk rng (Suc m) c1
        else (Inr (candidate rng x), c1))"
      using reject_loop_Inr [OF dx, of "Suc (Suc m)"] by simp
    show ?thesis
    proof (cases "rng \<le> candidate rng x")
      case False
      then have n0: "\<not> rejected kdf bk rng c 0" using r0 by simp
      then have l: "(LEAST i. \<not> rejected kdf bk rng c i) = 0" by (simp add: Least_equality)
      have nall: "\<not> (\<forall>i<Suc m. rejected kdf bk rng c i)" using n0 by auto
      show ?thesis unfolding if_not_P [OF nall] l using u False dx by simp
    next
      case True
      then have r0': "rejected kdf bk rng c 0" using r0 by simp
      have all: "(\<forall>i<Suc m. rejected kdf bk rng c i) \<longleftrightarrow> (\<forall>i<m. rejected kdf bk rng c1 i)"
      proof
        assume a: "\<forall>i<Suc m. rejected kdf bk rng c i"
        show "\<forall>i<m. rejected kdf bk rng c1 i"
        proof (intro allI impI)
          fix i assume "i < m"
          then have "rejected kdf bk rng c (Suc i)" using a by simp
          then show "rejected kdf bk rng c1 i" by (simp only: sh)
        qed
      next
        assume a: "\<forall>i<m. rejected kdf bk rng c1 i"
        show "\<forall>i<Suc m. rejected kdf bk rng c i"
        proof (intro allI impI)
          fix i assume i: "i < Suc m"
          show "rejected kdf bk rng c i"
          proof (cases i)
            case 0
            then show ?thesis using r0' by simp
          next
            case (Suc j)
            then show ?thesis using a i sh by simp
          qed
        qed
      qed
      have least: "(LEAST i. \<not> rejected kdf bk rng c i) = Suc (LEAST i. \<not> rejected kdf bk rng c1 i)"
        if ex: "\<exists>i. \<not> rejected kdf bk rng c1 i"
      proof -
        from ex obtain j where j: "\<not> rejected kdf bk rng c1 j" by blast
        then have "\<not> rejected kdf bk rng c (Suc j)" by (simp add: sh)
        from Least_Suc [of "\<lambda>i. \<not> rejected kdf bk rng c i", OF this] r0'
        show ?thesis by (simp add: sh)
      qed
      show ?thesis
      proof (cases "\<forall>i<m. rejected kdf bk rng c1 i")
        case t: True
        then have t': "\<forall>i<Suc m. rejected kdf bk rng c i" using all by simp
        show ?thesis
          unfolding if_P [OF t'] nth_draw_Inr_Suc [OF dx]
          using u True Suc.IH [of c1] t by simp
      next
        case f: False
        then have ex: "\<exists>i. \<not> rejected kdf bk rng c1 i" by blast
        have f': "\<not> (\<forall>i<Suc m. rejected kdf bk rng c i)" using all f by simp
        show ?thesis
          unfolding if_not_P [OF f'] least [OF ex] nth_draw_Inr_Suc [OF dx]
          using u True Suc.IH [of c1] f by simp
      qed
    qed
  qed
qed


lemma nth_draw_error:
  "nth_draw kdf bk rng c k = (Inl e, c') \<Longrightarrow> e \<noteq> SamplingExhausted"
proof (induction k arbitrary: c)
  case 0
  then show ?case
    by (auto split: prod.splits sum.splits dest: bk_bnrand_error)
next
  case (Suc k)
  then show ?case
    by (auto split: prod.splits sum.splits dest: bk_bnrand_error)
qed

lemma bk_bnrand_range_char:
  assumes "0 < rng" "2 \<le> BN_num_bits rng"
  shows "bk_bnrand_range kdf bk rng c =
     (if \<forall>i<99. rejected kdf bk rng c i
      then (case nth_draw kdf bk rng c 99 of
              (Inl e, c') \<Rightarrow> (Inl e, c')
            | (Inr r, c') \<Rightarrow> (Inl SamplingExhausted, c'))
      else nth_draw kdf bk rng c (LEAST i. \<not> rejected kdf bk rng c i))"
proof -
  have "bk_bnrand_range kdf bk rng c = reject_loop kdf bk rng (Suc 99) c"
    using assms by (simp add: bk_bnrand_range_reject)
  then show ?thesis by (simp only: reject_loop_char)
qed

text \<open>
  C4 (amended). For a range of at least two bits: when one of the first 99 draws is the
  first whose candidate is below the range, the call returns that candidate; the call
  fails with \<open>SamplingExhausted\<close> exactly when the first 99 draws are all rejected and the
  100th draw is made, whatever its candidate is; a value that the call returns is below
  the range and is the candidate of the first draw, among the first 99, that was not
  rejected; and the counter the call leaves is the one after at most 100 draws.
\<close>

theorem bk_bnrand_range_attempts:
  assumes "0 < rng" and "2 \<le> BN_num_bits rng"
  shows "(\<forall>k<99. (\<forall>i<k. rejected kdf bk rng cnt i) \<and>
            nth_draw kdf bk rng cnt k = (Inr r, cnt') \<and> r < rng \<longrightarrow>
            bk_bnrand_range kdf bk rng cnt = (Inr r, cnt')) \<and>
         (bk_bnrand_range kdf bk rng cnt = (Inl SamplingExhausted, cnt') \<longleftrightarrow>
            (\<forall>i<99. rejected kdf bk rng cnt i) \<and>
            (\<exists>r. nth_draw kdf bk rng cnt 99 = (Inr r, cnt'))) \<and>
         (bk_bnrand_range kdf bk rng cnt = (Inr r, cnt') \<longrightarrow>
            0 \<le> r \<and> r < rng \<and>
            (\<exists>k<99. (\<forall>i<k. rejected kdf bk rng cnt i) \<and>
               nth_draw kdf bk rng cnt k = (Inr r, cnt'))) \<and>
         (\<exists>k<100. snd (bk_bnrand_range kdf bk rng cnt) = snd (nth_draw kdf bk rng cnt k))"
proof -
  note ch = bk_bnrand_range_char [OF assms, of kdf bk cnt]
  let ?rej = "rejected kdf bk rng cnt"
  let ?L = "LEAST i. \<not> ?rej i"
  have acc: "bk_bnrand_range kdf bk rng cnt = (Inr r, cnt')"
    if k: "k < 99" and rj: "\<forall>i<k. ?rej i" and d: "nth_draw kdf bk rng cnt k = (Inr r, cnt')"
      and r: "r < rng" for k
  proof -
    have nk: "\<not> ?rej k" using d r by (simp add: rejected_def)
    have nall: "\<not> (\<forall>i<99. ?rej i)" using nk k by blast
    have "?L = k"
    proof (rule Least_equality)
      show "\<not> ?rej k" by (rule nk)
      fix y assume "\<not> ?rej y"
      then show "k \<le> y" using rj by (cases "k \<le> y") auto
    qed
    then show ?thesis unfolding ch if_not_P [OF nall] using d by simp
  qed
  have exh: "bk_bnrand_range kdf bk rng cnt = (Inl SamplingExhausted, cnt') \<longleftrightarrow>
            (\<forall>i<99. ?rej i) \<and> (\<exists>r. nth_draw kdf bk rng cnt 99 = (Inr r, cnt'))"
  proof (cases "\<forall>i<99. ?rej i")
    case True
    obtain res c1 where n: "nth_draw kdf bk rng cnt 99 = (res, c1)"
      by (cases "nth_draw kdf bk rng cnt 99")
    show ?thesis
    proof (cases res)
      case (Inl e)
      then have "e \<noteq> SamplingExhausted" using nth_draw_error n by blast
      then show ?thesis unfolding ch if_P [OF True] using n Inl by auto
    next
      case (Inr x)
      then show ?thesis unfolding ch if_P [OF True] using n True by auto
    qed
  next
    case False
    obtain res c1 where n: "nth_draw kdf bk rng cnt ?L = (res, c1)"
      by (cases "nth_draw kdf bk rng cnt ?L")
    have "(res, c1) \<noteq> (Inl SamplingExhausted, cnt')"
      using nth_draw_error [of kdf bk rng cnt ?L SamplingExhausted c1] n by auto
    then have "bk_bnrand_range kdf bk rng cnt \<noteq> (Inl SamplingExhausted, cnt')"
      unfolding ch if_not_P [OF False] n .
    then show ?thesis using False by blast
  qed
  have ret: "0 \<le> r \<and> r < rng \<and>
      (\<exists>k<99. (\<forall>i<k. ?rej i) \<and> nth_draw kdf bk rng cnt k = (Inr r, cnt'))"
    if s: "bk_bnrand_range kdf bk rng cnt = (Inr r, cnt')"
  proof -
    have nall: "\<not> (\<forall>i<99. ?rej i)"
    proof
      assume "\<forall>i<99. ?rej i"
      then have "bk_bnrand_range kdf bk rng cnt =
          (case nth_draw kdf bk rng cnt 99 of
             (Inl e, c') \<Rightarrow> (Inl e, c')
           | (Inr r, c') \<Rightarrow> (Inl SamplingExhausted, c'))"
        unfolding ch by simp
      with s show False by (auto split: prod.splits sum.splits)
    qed
    then obtain i where i: "i < 99" "\<not> ?rej i" by blast
    have "?L \<le> i" using i(2) by (rule Least_le)
    then have L: "?L < 99" using i(1) by simp
    have before: "\<forall>j<?L. ?rej j" using not_less_Least by blast
    have d: "nth_draw kdf bk rng cnt ?L = (Inr r, cnt')"
      using s unfolding ch if_not_P [OF nall] .
    from bk_bnrand_range_Inr [OF s] L before d show ?thesis by blast
  qed
  have cnt: "\<exists>k<100. snd (bk_bnrand_range kdf bk rng cnt) = snd (nth_draw kdf bk rng cnt k)"
  proof (cases "\<forall>i<99. ?rej i")
    case True
    have "snd (bk_bnrand_range kdf bk rng cnt) = snd (nth_draw kdf bk rng cnt 99)"
      unfolding ch if_P [OF True] by (auto split: prod.splits sum.splits)
    then show ?thesis by (intro exI [of _ 99]) simp
  next
    case False
    then obtain i where i: "i < 99" "\<not> ?rej i" by blast
    have "?L \<le> i" using i(2) by (rule Least_le)
    then have "?L < 100" using i(1) by simp
    moreover have "snd (bk_bnrand_range kdf bk rng cnt) = snd (nth_draw kdf bk rng cnt ?L)"
      unfolding ch if_not_P [OF False] ..
    ultimately show ?thesis by blast
  qed
  from acc exh ret cnt show ?thesis by blast
qed

lemma late_block:
  "block_of kdf_late ''abcd'' pass c =
     Some (replicate 32 (if drop 6 (hex8 c) = ''63'' then 0 else 0xff))"
proof -
  have "c_str (snprintf_salt ''abcd'' c) = ''abcd.opmsg-brainkey-v1.'' @ hex8 c"
    by (simp add: c_str_snprintf_salt c_str_no_nul)
  then show ?thesis
    by (simp add: block_of_def kdf_late_def length_hex8)
qed

lemma late_fill:
  "bk_RAND_bytes kdf_late bk0 1 c = (Inr [if drop 6 (hex8 c) = ''63'' then 0 else 0xff], c + 1)"
proof -
  have t: "take 4 bk0 = ''abcd''" by (simp add: bk0_def)
  have "fill_loop kdf_late ''abcd'' (drop 4 bk0) 1 (replicate 32 0) [0] 0 c =
      (Inr [if drop 6 (hex8 c) = ''63'' then 0 else 0xff], c + 1)"
    by (subst fill_loop_step [OF _ late_block])
       (simp_all add: write_out_def memcpy_def fill_loop_done)
  then show ?thesis by (simp add: bk_RAND_bytes_def t) (simp add: bk0_def)
qed

lemma late_draw:
  "bk_bnrand kdf_late bk0 2 bk_BN_RAND_TOP_ANY bk_BN_RAND_BOTTOM_ANY c =
     (Inr (if drop 6 (hex8 c) = ''63'' then 0 else 3), c + 1)"
proof -
  have a: "uint (and_u8 (NOT (push_bit 2 255)) 0xff) = 3" by (simp add: and_u8_def)
  have b: "uint (and_u8 (NOT (push_bit 2 255)) 0) = 0" by (simp add: and_u8_def)
  show ?thesis
    using a b
    by (simp add: bk_bnrand_def bk_BN_RAND_TOP_ANY_def bk_BN_RAND_BOTTOM_ANY_def INT_MAX_def
        late_fill shape_def poke_def BN_bin2bn_def)
qed

lemma range3: "draw_bits 3 = 2" "candidate 3 r = r"
proof -
  have n: "BN_num_bits 3 = 2" "BN_is_bit_set 3 0" by code_simp+
  show "draw_bits 3 = 2" "candidate 3 r = r"
    by (simp_all add: draw_bits_def candidate_def top_zeros_def n)
qed

lemma late_nth_draw:
  "nth_draw kdf_late bk0 3 c k =
     (Inr (if drop 6 (hex8 (c + of_nat k)) = ''63'' then 0 else 3), c + of_nat k + 1)"
proof (induction k arbitrary: c)
  case 0
  show ?case by (simp add: range3 late_draw)
next
  case (Suc k)
  show ?case by (simp add: range3 late_draw Suc.IH ac_simps)
qed

lemma late_rejected: "\<forall>i<99. rejected kdf_late bk0 3 0 i"
proof -
  have "\<forall>i \<in> set [0..<99]. drop 6 (hex8 (of_nat i)) \<noteq> ''63''" by code_simp
  then show ?thesis by (simp add: rejected_def late_nth_draw)
qed

text \<open>
  C4 as stated fails at the 100th draw: \<^verbatim>\<open>--count\<close> reaches 0 before the loop test, so
  a 100th draw whose candidate 0 is below the range 3 leaves the call exhausted.
\<close>

theorem bk_bnrand_range_attempts_counterexample:
  "nth_draw kdf_late bk0 3 0 99 = (Inr 0, 100) \<and> (0 :: int) < 3 \<and>
   bk_bnrand_range kdf_late bk0 3 0 = (Inl SamplingExhausted, 100)"
proof -
  have h: "drop 6 (hex8 99) = ''63''" by code_simp
  have d: "nth_draw kdf_late bk0 3 0 99 = (Inr 0, 100)"
    using late_nth_draw [of 0 99] h by simp
  have n: "(0 :: int) < 3" "2 \<le> BN_num_bits 3" by code_simp+
  show ?thesis
    unfolding bk_bnrand_range_char [OF n] if_P [OF late_rejected] d by simp
qed


text \<open>
  The amended C4 on the range 11: the first draw gives 15 and is rejected, the second
  gives 0 and is returned.
\<close>

theorem bk_bnrand_range_attempts_witness:
  "rejected kdf_sample bk0 11 0 0 \<and> nth_draw kdf_sample bk0 11 0 1 = (Inr 0, 2) \<and>
   bk_bnrand_range kdf_sample bk0 11 0 = (Inr 0, 2)"
proof -
  have n: "(0 :: int) < 11" "2 \<le> BN_num_bits 11" by code_simp+
  have b: "draw_bits 11 = 4" by code_simp
  have c: "candidate 11 r = r" for r
  proof -
    have "\<not> top_zeros 11" by code_simp
    then show ?thesis by (simp add: candidate_def)
  qed
  have d0: "bk_bnrand kdf_sample bk0 4 bk_BN_RAND_TOP_ANY bk_BN_RAND_BOTTOM_ANY 0 = (Inr 15, 1)"
    by code_simp
  have d1: "bk_bnrand kdf_sample bk0 4 bk_BN_RAND_TOP_ANY bk_BN_RAND_BOTTOM_ANY 1 = (Inr 0, 2)"
    by code_simp
  have r0: "rejected kdf_sample bk0 11 0 0" by (simp add: rejected_def b c d0)
  have n1: "nth_draw kdf_sample bk0 11 0 1 = (Inr 0, 2)" by (simp add: b c d0 d1)
  have "(\<forall>i<1. rejected kdf_sample bk0 11 0 i) \<and>
        nth_draw kdf_sample bk0 11 0 1 = (Inr 0, 2) \<and> (0 :: int) < 11"
    using r0 n1 by simp
  moreover have "(1 :: nat) < 99" by simp
  ultimately have "bk_bnrand_range kdf_sample bk0 11 0 = (Inr 0, 2)"
    using bk_bnrand_range_attempts [OF n, of kdf_sample bk0 0 0 2] by blast
  with r0 n1 show ?thesis by simp
qed

subsection \<open>The key generator\<close>

lemma priv_key_loop_sound:
  assumes "priv_key_loop kdf1 bk1 order1 c1 = Some y1"
  shows "\<forall>r c'. y1 = (Inr r, c') \<longrightarrow> 1 \<le> r \<and> r < order1"
proof (rule priv_key_loop.raw_induct
    [where P = "\<lambda>kdf bk order c y. \<forall>r c'. y = (Inr r, c') \<longrightarrow> 1 \<le> r \<and> r < order", OF _ assms])
  fix loop :: "kdf \<Rightarrow> string \<Rightarrow> int \<Rightarrow> u32 \<Rightarrow> ((error + int) \<times> u32) option"
    and kdf bk order c y
  assume IH: "\<And>kdf bk order c y. loop kdf bk order c = Some y \<Longrightarrow>
      \<forall>r c'. y = (Inr r, c') \<longrightarrow> 1 \<le> r \<and> r < order"
    and body: "(case bk_bnrand_range kdf bk order c of
        (Inl e, salt_cnt') \<Rightarrow> Some (Inl e, salt_cnt')
      | (Inr r, salt_cnt') \<Rightarrow>
          if r = 0 then loop kdf bk order salt_cnt'
          else Some (Inr r, salt_cnt')) = Some y"
  obtain res c1 where d: "bk_bnrand_range kdf bk order c = (res, c1)"
    by (cases "bk_bnrand_range kdf bk order c")
  show "\<forall>r c'. y = (Inr r, c') \<longrightarrow> 1 \<le> r \<and> r < order"
  proof (cases res)
    case (Inl e)
    with d body show ?thesis by auto
  next
    case (Inr x)
    have x: "0 \<le> x \<and> x < order"
      using bk_bnrand_range_Inr [of kdf bk order c x c1] d Inr by simp
    show ?thesis
    proof (cases "x = 0")
      case True
      with d Inr body have "loop kdf bk order c1 = Some y" by simp
      then show ?thesis by (rule IH)
    next
      case False
      with d Inr body have "y = (Inr x, c1)" by simp
      with x False show ?thesis by simp
    qed
  qed
qed

lemma sample_range_11_0: "bk_bnrand_range kdf_sample bk0 11 0 = (Inr 0, 2)"
proof -
  have n: "BN_num_bits 11 = 4" "\<not> BN_is_bit_set 11 2" "BN_is_bit_set 11 1" by code_simp+
  have d0: "bk_bnrand kdf_sample bk0 4 (- 1) 0 0 = (Inr 15, 1)" by code_simp
  have d1: "bk_bnrand kdf_sample bk0 4 (- 1) 0 1 = (Inr 0, 2)" by code_simp
  show ?thesis
    by (simp add: bk_bnrand_range_def n range_loop1.simps [of _ _ _ _ 100]
        range_loop1.simps [of _ _ _ _ 99]
        bk_BN_RAND_TOP_ANY_def bk_BN_RAND_BOTTOM_ANY_def d0 d1)
qed



lemma sample_range_11_2: "bk_bnrand_range kdf_sample bk0 11 2 = (Inr 1, 3)"
proof -
  have n: "BN_num_bits 11 = 4" "\<not> BN_is_bit_set 11 2" "BN_is_bit_set 11 1" by code_simp+
  have d2: "bk_bnrand kdf_sample bk0 4 (- 1) 0 2 = (Inr 1, 3)" by code_simp
  show ?thesis
    by (simp add: bk_bnrand_range_def n range_loop1.simps [of _ _ _ _ 100]
        bk_BN_RAND_TOP_ANY_def bk_BN_RAND_BOTTOM_ANY_def d2)
qed

lemma sample_priv_key_loop: "priv_key_loop kdf_sample bk0 11 0 = Some (Inr 1, 3)"
  by (subst priv_key_loop.simps, simp add: sample_range_11_0)
     (subst priv_key_loop.simps, simp add: sample_range_11_2)

lemma priv_key_loop_zero:
  "bk_bnrand_range kdf bk order c = (Inr 0, c1) \<Longrightarrow>
   priv_key_loop kdf bk order c = priv_key_loop kdf bk order c1"
  by (subst priv_key_loop.simps) simp

lemma priv_key_loop_nonzero:
  "bk_bnrand_range kdf bk order c = (Inr r, c1) \<Longrightarrow> r \<noteq> 0 \<Longrightarrow>
   priv_key_loop kdf bk order c = Some (Inr r, c1)"
  by (subst priv_key_loop.simps) simp

lemma priv_key_loop_skip:
  "\<forall>i<k. fst (nth_scalar kdf bk order c i) = Inr 0 \<Longrightarrow>
   nth_scalar kdf bk order c k = (Inr priv, c1) \<Longrightarrow> priv \<noteq> 0 \<Longrightarrow>
   priv_key_loop kdf bk order c = Some (Inr priv, c1)"
proof (induction k arbitrary: c)
  case 0
  then show ?case by (simp add: priv_key_loop_nonzero)
next
  case (Suc k)
  from Suc.prems(1) have "fst (nth_scalar kdf bk order c 0) = Inr 0" by blast
  then obtain c2 where z: "bk_bnrand_range kdf bk order c = (Inr 0, c2)"
    by (cases "bk_bnrand_range kdf bk order c") auto
  have sh: "nth_scalar kdf bk order c (Suc i) = nth_scalar kdf bk order c2 i" for i
    using z by simp
  have a: "\<forall>i<k. fst (nth_scalar kdf bk order c2 i) = Inr 0"
  proof (intro allI impI)
    fix i assume "i < k"
    then have "Suc i < Suc k" by simp
    with Suc.prems(1) have "fst (nth_scalar kdf bk order c (Suc i)) = Inr 0" by blast
    then show "fst (nth_scalar kdf bk order c2 i) = Inr 0" by (simp only: sh)
  qed
  have b: "nth_scalar kdf bk order c2 k = (Inr priv, c1)"
    using Suc.prems(2) by (simp only: sh)
  show ?case
    unfolding priv_key_loop_zero [OF z] by (rule Suc.IH [OF a b Suc.prems(3)])
qed

lemma priv_key_loop_draws:
  assumes "priv_key_loop kdf1 bk1 order1 c1 = Some y1"
  shows "\<forall>priv c'. y1 = (Inr priv, c') \<longrightarrow>
           (\<exists>k. (\<forall>i<k. fst (nth_scalar kdf1 bk1 order1 c1 i) = Inr 0) \<and>
                nth_scalar kdf1 bk1 order1 c1 k = (Inr priv, c'))"
proof (rule priv_key_loop.raw_induct
    [where P = "\<lambda>kdf bk order c y. \<forall>priv c'. y = (Inr priv, c') \<longrightarrow>
           (\<exists>k. (\<forall>i<k. fst (nth_scalar kdf bk order c i) = Inr 0) \<and>
                nth_scalar kdf bk order c k = (Inr priv, c'))", OF _ assms])
  fix loop :: "kdf \<Rightarrow> string \<Rightarrow> int \<Rightarrow> u32 \<Rightarrow> ((error + int) \<times> u32) option"
    and kdf bk order c y
  assume IH: "\<And>kdf bk order c y. loop kdf bk order c = Some y \<Longrightarrow>
      \<forall>priv c'. y = (Inr priv, c') \<longrightarrow>
           (\<exists>k. (\<forall>i<k. fst (nth_scalar kdf bk order c i) = Inr 0) \<and>
                nth_scalar kdf bk order c k = (Inr priv, c'))"
    and body: "(case bk_bnrand_range kdf bk order c of
        (Inl e, salt_cnt') \<Rightarrow> Some (Inl e, salt_cnt')
      | (Inr r, salt_cnt') \<Rightarrow>
          if r = 0 then loop kdf bk order salt_cnt'
          else Some (Inr r, salt_cnt')) = Some y"
  obtain res c2 where d: "bk_bnrand_range kdf bk order c = (res, c2)"
    by (cases "bk_bnrand_range kdf bk order c")
  show "\<forall>priv c'. y = (Inr priv, c') \<longrightarrow>
           (\<exists>k. (\<forall>i<k. fst (nth_scalar kdf bk order c i) = Inr 0) \<and>
                nth_scalar kdf bk order c k = (Inr priv, c'))"
  proof (cases res)
    case (Inl e)
    with d body show ?thesis by auto
  next
    case (Inr x)
    show ?thesis
    proof (cases "x = 0")
      case False
      with d Inr body have y: "y = (Inr x, c2)" by simp
      show ?thesis
      proof (intro allI impI)
        fix priv c' assume "y = (Inr priv, c')"
        with y have "nth_scalar kdf bk order c 0 = (Inr priv, c')" using d Inr by simp
        then show "\<exists>k. (\<forall>i<k. fst (nth_scalar kdf bk order c i) = Inr 0) \<and>
                nth_scalar kdf bk order c k = (Inr priv, c')"
          by (intro exI [of _ 0]) simp
      qed
    next
      case True
      with d Inr body have l: "loop kdf bk order c2 = Some y" by simp
      have z: "bk_bnrand_range kdf bk order c = (Inr 0, c2)" using d Inr True by simp
      have sh: "nth_scalar kdf bk order c (Suc i) = nth_scalar kdf bk order c2 i" for i
        using z by simp
      show ?thesis
      proof (intro allI impI)
        fix priv c' assume "y = (Inr priv, c')"
        with IH [OF l] obtain k where k: "\<forall>i<k. fst (nth_scalar kdf bk order c2 i) = Inr 0"
          "nth_scalar kdf bk order c2 k = (Inr priv, c')" by blast
        have "\<forall>i<Suc k. fst (nth_scalar kdf bk order c i) = Inr 0"
        proof (intro allI impI)
          fix i assume i: "i < Suc k"
          show "fst (nth_scalar kdf bk order c i) = Inr 0"
          proof (cases i)
            case 0
            then show ?thesis using z by simp
          next
            case (Suc j)
            then have "j < k" using i by simp
            then have "fst (nth_scalar kdf bk order c2 j) = Inr 0" using k(1) by blast
            then show ?thesis unfolding Suc sh .
          qed
        qed
        moreover have "nth_scalar kdf bk order c (Suc k) = (Inr priv, c')"
          using k(2) by (simp only: sh)
        ultimately show "\<exists>k. (\<forall>i<k. fst (nth_scalar kdf bk order c i) = Inr 0) \<and>
                nth_scalar kdf bk order c k = (Inr priv, c')"
          by blast
      qed
    qed
  qed
qed


text \<open>
  C6. On a brainkey of at least 16 bytes, with setters that store their field:

  \<^item> when the generator succeeds, the key object it leaves holds a private scalar \<open>priv\<close>
    with \<open>1 \<le> priv < order\<close> and the public point that the multiplication gave for
    \<open>priv\<close>; \<open>priv\<close> is the value that the last call of \<^verbatim>\<open>bk_bnrand_range\<close> returned,
    and every call before it returned 0;
  \<^item> when a call of \<^verbatim>\<open>bk_bnrand_range\<close> returns 0, the generator does what it does from
    the counter that this call left: the 0 is dropped and the range is sampled again;
  \<^item> when the calls in a row return 0 until one returns a nonzero \<open>priv\<close>, and the point
    multiplication and the setters succeed, the generator succeeds and stores \<open>priv\<close>.
\<close>

theorem generate_private_scalar:
  assumes "16 \<le> length bk" and "setters_store lib"
  shows "(EC_KEY_generate_key kdf lib bk eckey cnt w = Some (Inr (), eckey', cnt', w') \<longrightarrow>
            (\<exists>order priv pub k.
               EC_GROUP_get_order lib (group eckey) = Some order \<and>
               (\<forall>i<k. fst (nth_scalar kdf bk order cnt i) = Inr 0) \<and>
               nth_scalar kdf bk order cnt k = (Inr priv, cnt') \<and>
               1 \<le> priv \<and> priv < order \<and>
               EC_POINT_mul lib (group eckey) priv = Some pub \<and>
               eckey' = eckey\<lparr>priv_key := Some priv, pub_key := Some pub\<rparr> \<and> w' = w)) \<and>
         (EC_GROUP_get_order lib (group eckey) = Some order \<and>
          bk_bnrand_range kdf bk order cnt = (Inr 0, c1) \<longrightarrow>
            EC_KEY_generate_key kdf lib bk eckey cnt w = EC_KEY_generate_key kdf lib bk eckey c1 w) \<and>
         (EC_GROUP_get_order lib (group eckey) = Some order \<and>
          (\<forall>i<k. fst (nth_scalar kdf bk order cnt i) = Inr 0) \<and>
          nth_scalar kdf bk order cnt k = (Inr priv, c2) \<and> priv \<noteq> 0 \<and>
          EC_POINT_mul lib (group eckey) priv = Some pub \<and>
          fst (EC_KEY_set_private_key lib eckey priv) \<and>
          fst (EC_KEY_set_public_key lib (eckey\<lparr>priv_key := Some priv\<rparr>) pub) \<longrightarrow>
            EC_KEY_generate_key kdf lib bk eckey cnt w =
              Some (Inr (), eckey\<lparr>priv_key := Some priv, pub_key := Some pub\<rparr>, c2, w))"
proof -
  have A: "\<exists>order priv pub k.
               EC_GROUP_get_order lib (group eckey) = Some order \<and>
               (\<forall>i<k. fst (nth_scalar kdf bk order cnt i) = Inr 0) \<and>
               nth_scalar kdf bk order cnt k = (Inr priv, cnt') \<and>
               1 \<le> priv \<and> priv < order \<and>
               EC_POINT_mul lib (group eckey) priv = Some pub \<and>
               eckey' = eckey\<lparr>priv_key := Some priv, pub_key := Some pub\<rparr> \<and> w' = w"
    if s: "EC_KEY_generate_key kdf lib bk eckey cnt w = Some (Inr (), eckey', cnt', w')"
  proof -
    from assms(1) s obtain order where o: "EC_GROUP_get_order lib (group eckey) = Some order"
      by (cases "EC_GROUP_get_order lib (group eckey)") (auto simp: EC_KEY_generate_key_def)
    from assms(1) s o obtain y where l: "priv_key_loop kdf bk order cnt = Some y"
      by (cases "priv_key_loop kdf bk order cnt") (auto simp: EC_KEY_generate_key_def)
    obtain res c2 where y: "y = (res, c2)" by (cases y)
    from assms(1) s o l y obtain priv where p: "res = Inr priv"
      by (cases res) (auto simp: EC_KEY_generate_key_def)
    have rng: "1 \<le> priv \<and> priv < order"
      using priv_key_loop_sound [OF l] y p by simp
    from assms(1) s o l y p obtain pub where m: "EC_POINT_mul lib (group eckey) priv = Some pub"
      by (cases "EC_POINT_mul lib (group eckey) priv") (auto simp: EC_KEY_generate_key_def)
    obtain ok1 k1 where s1: "EC_KEY_set_private_key lib eckey priv = (ok1, k1)"
      by (cases "EC_KEY_set_private_key lib eckey priv")
    obtain ok2 k2 where s2: "EC_KEY_set_public_key lib k1 pub = (ok2, k2)"
      by (cases "EC_KEY_set_public_key lib k1 pub")
    from assms(1) s o l y p m s1 s2 have ok: "ok1" "ok2" "eckey' = k2" "w' = w" "cnt' = c2"
      by (auto simp: EC_KEY_generate_key_def split: if_splits bool.splits)
    from priv_key_loop_draws [OF l] y p ok(5) obtain k where
      k: "\<forall>i<k. fst (nth_scalar kdf bk order cnt i) = Inr 0"
         "nth_scalar kdf bk order cnt k = (Inr priv, cnt')" by blast
    have t1: "EC_KEY_set_private_key lib eckey priv = (True, k1)" using s1 ok(1) by simp
    have t2: "EC_KEY_set_public_key lib k1 pub = (True, k2)" using s2 ok(2) by simp
    have "k1 = eckey\<lparr>priv_key := Some priv\<rparr>" "k2 = k1\<lparr>pub_key := Some pub\<rparr>"
      using assms(2) t1 t2 unfolding setters_store_def by blast+
    then have "eckey' = eckey\<lparr>priv_key := Some priv, pub_key := Some pub\<rparr>"
      using ok(3) by simp
    with o rng m ok(4) k show ?thesis by blast
  qed
  have B: "EC_KEY_generate_key kdf lib bk eckey cnt w = EC_KEY_generate_key kdf lib bk eckey c1 w"
    if "EC_GROUP_get_order lib (group eckey) = Some order"
      and "bk_bnrand_range kdf bk order cnt = (Inr 0, c1)"
    using assms(1) that by (simp add: EC_KEY_generate_key_def priv_key_loop_zero [OF that(2)])
  have C: "EC_KEY_generate_key kdf lib bk eckey cnt w =
              Some (Inr (), eckey\<lparr>priv_key := Some priv, pub_key := Some pub\<rparr>, c2, w)"
    if o: "EC_GROUP_get_order lib (group eckey) = Some order"
      and z: "\<forall>i<k. fst (nth_scalar kdf bk order cnt i) = Inr 0"
      and n: "nth_scalar kdf bk order cnt k = (Inr priv, c2)" and p: "priv \<noteq> 0"
      and m: "EC_POINT_mul lib (group eckey) priv = Some pub"
      and s1: "fst (EC_KEY_set_private_key lib eckey priv)"
      and s2: "fst (EC_KEY_set_public_key lib (eckey\<lparr>priv_key := Some priv\<rparr>) pub)"
  proof -
    have l: "priv_key_loop kdf bk order cnt = Some (Inr priv, c2)"
      by (rule priv_key_loop_skip [OF z n p])
    obtain k1 where t1: "EC_KEY_set_private_key lib eckey priv = (True, k1)"
      using s1 by (cases "EC_KEY_set_private_key lib eckey priv") auto
    have k1: "k1 = eckey\<lparr>priv_key := Some priv\<rparr>"
      using assms(2) t1 unfolding setters_store_def by blast
    obtain k2 where t2: "EC_KEY_set_public_key lib k1 pub = (True, k2)"
      using s2 unfolding k1 [symmetric] by (cases "EC_KEY_set_public_key lib k1 pub") auto
    have k2: "k2 = k1\<lparr>pub_key := Some pub\<rparr>"
      using assms(2) t2 unfolding setters_store_def by blast
    show ?thesis
      using assms(1) o l m t1 t2 by (simp add: EC_KEY_generate_key_def k1 k2)
  qed
  from A B C show ?thesis by blast
qed

lemma sample_scalars:
  "nth_scalar kdf_sample bk0 11 0 0 = (Inr 0, 2)" "nth_scalar kdf_sample bk0 11 0 1 = (Inr 1, 3)"
  by (simp_all add: sample_range_11_0 sample_range_11_2)

text \<open>
  C6 on the sample group of order 11: the first scalar sampled is 0 and is dropped, the
  second is 1 and is stored; the generator started after the first call does the same.
\<close>

theorem generate_private_scalar_witness:
  "nth_scalar kdf_sample bk0 11 0 0 = (Inr 0, 2) \<and>
   nth_scalar kdf_sample bk0 11 0 1 = (Inr 1, 3) \<and>
   EC_KEY_generate_key kdf_sample lib_sample bk0 key0 0 0 =
     Some (Inr (), \<lparr>group = 11, priv_key = Some 1, pub_key = Some 1\<rparr>, 3, 0) \<and>
   EC_KEY_generate_key kdf_sample lib_sample bk0 key0 2 0 =
     Some (Inr (), \<lparr>group = 11, priv_key = Some 1, pub_key = Some 1\<rparr>, 3, 0)"
proof -
  have h1: "16 \<le> length bk0" by (simp add: bk0_def)
  have h2: "setters_store lib_sample" by (simp add: setters_store_def lib_sample_def)
  note th = generate_private_scalar [OF h1 h2, where kdf = kdf_sample and eckey = key0
      and cnt = 0 and w = 0 and order = 11 and ?c1.0 = 2 and k = 1 and priv = 1 and ?c2.0 = 3
      and pub = 1]
  have o: "EC_GROUP_get_order lib_sample (group key0) = Some 11"
    by (simp add: lib_sample_def key0_def)
  have z: "\<forall>i<1. fst (nth_scalar kdf_sample bk0 11 0 i) = Inr 0"
    using sample_scalars(1) by simp
  have m: "EC_POINT_mul lib_sample (group key0) 1 = Some 1"
    by (simp add: lib_sample_def key0_def)
  have s: "fst (EC_KEY_set_private_key lib_sample key0 1)"
    "fst (EC_KEY_set_public_key lib_sample (key0\<lparr>priv_key := Some 1\<rparr>) 1)"
    by (simp_all add: lib_sample_def)
  have g: "EC_KEY_generate_key kdf_sample lib_sample bk0 key0 0 0 =
      Some (Inr (), key0\<lparr>priv_key := Some 1, pub_key := Some 1\<rparr>, 3, 0)"
    using th o z sample_scalars(2) m s by simp
  have r: "EC_KEY_generate_key kdf_sample lib_sample bk0 key0 0 0 =
      EC_KEY_generate_key kdf_sample lib_sample bk0 key0 2 0"
    using th o sample_range_11_0 by simp
  show ?thesis using g r sample_scalars by (simp add: key0_def)
qed

text \<open>
  C7 (amended). When the generator fails on a brainkey of at least 16 bytes at any place
  before the two setters (the group order, the sampling with its keystream, the point
  multiplication), the key object is the one it was given.
\<close>

theorem generate_failure_frame:
  assumes "16 \<le> length bk"
    and "EC_KEY_generate_key kdf lib bk eckey cnt w = Some (Inl e, eckey', cnt', w')"
    and "e \<noteq> SetPrivateFailure" and "e \<noteq> SetPublicFailure"
  shows "eckey' = eckey \<and> w' = w"
proof (cases "EC_GROUP_get_order lib (group eckey)")
  case None
  with assms(1,2) show ?thesis by (simp add: EC_KEY_generate_key_def)
next
  case (Some order)
  note o = Some
  from assms(1,2) o obtain res c1 where l: "priv_key_loop kdf bk order cnt = Some (res, c1)"
    by (cases "priv_key_loop kdf bk order cnt") (auto simp: EC_KEY_generate_key_def)
  show ?thesis
  proof (cases res)
    case (Inl x)
    with assms(1,2) o l show ?thesis by (simp add: EC_KEY_generate_key_def)
  next
    case (Inr priv)
    note p = Inr
    show ?thesis
    proof (cases "EC_POINT_mul lib (group eckey) priv")
      case None
      with assms(1,2) o l p show ?thesis by (simp add: EC_KEY_generate_key_def)
    next
      case (Some pub)
      obtain ok1 k1 where s1: "EC_KEY_set_private_key lib eckey priv = (ok1, k1)"
        by (cases "EC_KEY_set_private_key lib eckey priv")
      obtain ok2 k2 where s2: "EC_KEY_set_public_key lib k1 pub = (ok2, k2)"
        by (cases "EC_KEY_set_public_key lib k1 pub")
      from assms o l p Some s1 s2 show ?thesis
        by (cases ok1; cases ok2) (simp_all add: EC_KEY_generate_key_def)
    qed
  qed
qed

lemma fail1_range: "bk_bnrand_range kdf_fail1 bk0 11 0 = (Inl DerivationFailure, 2)"
proof -
  have n: "BN_num_bits 11 = 4" "\<not> BN_is_bit_set 11 2" "BN_is_bit_set 11 1" by code_simp+
  have d0: "bk_bnrand kdf_fail1 bk0 4 (- 1) 0 0 = (Inr 15, 1)" by code_simp
  have d1: "bk_bnrand kdf_fail1 bk0 4 (- 1) 0 1 = (Inl DerivationFailure, 2)" by code_simp
  show ?thesis
    by (simp add: bk_bnrand_range_def n range_loop1.simps [of _ _ _ _ 100]
        range_loop1.simps [of _ _ _ _ 99]
        bk_BN_RAND_TOP_ANY_def bk_BN_RAND_BOTTOM_ANY_def d0 d1)
qed

lemma fail1_generate:
  "EC_KEY_generate_key kdf_fail1 lib_sample bk0 key0 0 0 = Some (Inl DerivationFailure, key0, 2, 0)"
proof -
  have "priv_key_loop kdf_fail1 bk0 11 0 = Some (Inl DerivationFailure, 2)"
    by (subst priv_key_loop.simps) (simp add: fail1_range)
  then show ?thesis
    by (simp add: EC_KEY_generate_key_def lib_sample_def key0_def) (simp add: bk0_def)
qed

text \<open>
  The amended C7 on a keystream whose second derivation fails.
\<close>

theorem generate_failure_frame_witness:
  "EC_KEY_generate_key kdf_fail1 lib_sample bk0 key0 0 0 = Some (Inl DerivationFailure, key0, 2, 0)"
proof -
  have h1: "16 \<le> length bk0" by (simp add: bk0_def)
  obtain e k c w where r: "EC_KEY_generate_key kdf_fail1 lib_sample bk0 key0 0 0 = Some (Inl e, k, c, w)"
    and e: "e = DerivationFailure" and c: "c = 2"
    using fail1_generate by blast
  have "k = key0 \<and> w = 0"
    using generate_failure_frame [OF h1 r] e by simp
  with r e c show ?thesis by simp
qed

text \<open>
  C7 as stated fails: the private key is stored at line 227 before the public key is
  stored at line 229, and nothing undoes the first when the second fails. After the
  failing call the key object holds the private scalar 1 and no public point.
\<close>

theorem generate_failure_frame_counterexample:
  "EC_KEY_generate_key kdf_sample lib_nopub bk0 key0 0 0 =
     Some (Inl SetPublicFailure, \<lparr>group = 11, priv_key = Some 1, pub_key = None\<rparr>, 3, 0) \<and>
   key0 = \<lparr>group = 11, priv_key = None, pub_key = None\<rparr>"
  by (simp add: EC_KEY_generate_key_def lib_nopub_def lib_sample_def key0_def sample_priv_key_loop)
     (simp add: bk0_def)

text \<open>
  C8. On a brainkey of fewer than 16 bytes the generator is one call of libcrypto's own
  generator: the status, the key object and the state of the system's random source are
  those of that call, the counter is unchanged, the result does not depend on the
  derivation function, and the keystream itself would refuse to deliver.
\<close>

theorem generate_fallback:
  assumes "length bk < 16"
  shows "\<exists>ok eckey' w'.
           lib_EC_KEY_generate_key lib eckey w = (ok, eckey', w') \<and>
           EC_KEY_generate_key kdf lib bk eckey cnt w =
             Some (if ok then Inr () else Inl LibraryFailure, eckey', cnt, w') \<and>
           EC_KEY_generate_key kdf' lib bk eckey cnt w = EC_KEY_generate_key kdf lib bk eckey cnt w \<and>
           bk_RAND_bytes kdf bk buflen cnt = (Inl Unsupported, cnt)"
proof -
  obtain ok k w1 where g: "lib_EC_KEY_generate_key lib eckey w = (ok, k, w1)"
    by (cases "lib_EC_KEY_generate_key lib eckey w")
  have "EC_KEY_generate_key kdf lib bk eckey cnt w =
      Some (if ok then Inr () else Inl LibraryFailure, k, cnt, w1)" for kdf
    using assms g by (simp add: EC_KEY_generate_key_def)
  moreover have "bk_RAND_bytes kdf bk buflen cnt = (Inl Unsupported, cnt)"
    using assms by (simp add: bk_RAND_bytes_def)
  ultimately show ?thesis using g by simp
qed

text \<open>
  C8 on a brainkey of 9 bytes: the sample library records one call.
\<close>

theorem generate_fallback_witness:
  "length ''too short'' < 16 \<and>
   lib_EC_KEY_generate_key lib_sample key0 0 =
     (True, \<lparr>group = 11, priv_key = Some 1, pub_key = Some 1\<rparr>, 1) \<and>
   EC_KEY_generate_key kdf_sample lib_sample ''too short'' key0 5 0 =
     Some (Inr (), \<lparr>group = 11, priv_key = Some 1, pub_key = Some 1\<rparr>, 5, 1)"
proof -
  have h: "length ''too short'' < 16" by simp
  have g: "lib_EC_KEY_generate_key lib_sample key0 0 =
     (True, \<lparr>group = 11, priv_key = Some 1, pub_key = Some 1\<rparr>, 1)"
    by (simp add: lib_sample_def key0_def)
  from generate_fallback [OF h, of lib_sample key0 0 kdf_sample 5 kdf_sample 1]
  show ?thesis using h g by auto
qed

end
